theory Spec2Isabelle
  imports Main "HOL-Library.AList"
begin

section \<open>Result values of the scrapers (scrapers/base.py)\<close>

text \<open>
  Python exceptions raised by the modelled code are values of \<open>error\<close>; a function that
  can raise returns \<open>error + 'a\<close> with \<open>Inl\<close> for the exception.
\<close>

datatype error =
  KeyError | TypeError | AttributeError | AssertionError | OSError | ScrapeError

text \<open>
  \<open>ResponseOutput\<close> and \<open>RequestOutput\<close> are the dataclasses of scrapers/base.py.
  Byte strings and text are both \<open>string\<close>; a field that is \<open>None\<close> in Python is
  \<open>None\<close> here; \<open>datetime\<close> values are abstract time stamps.
\<close>

record ResponseOutput =
  resp_body :: string
  resp_date :: int
  resp_headers :: "(string \<times> string) list"
  status_code :: int
  reason :: "string option"

record RequestOutput =
  req_url :: string
  req_body :: "string option"
  cert :: "(string \<times> string) list option"
  req_date :: int
  req_headers :: "(string \<times> string) list"
  host :: "string option"
  req_method :: "string option"
  params :: "string option"
  path :: "string option"
  resource_type :: "string option"
  response :: "ResponseOutput option"

text \<open>
  The values a field of a \<open>ScraperOutput\<close> can hold: \<open>None\<close>, \<open>str\<close>, \<open>bytes\<close>,
  \<open>datetime\<close>, a list or a tuple of requests, and a \<open>dict\<close> (the third case
  \<open>strip_data\<close> tests for).
\<close>

datatype pyval =
  PNone
| PStr string
| PBytes string
| PDate int
| PList "RequestOutput list"
| PTuple "RequestOutput list"
| PDict "(string \<times> string) list"

text \<open>
  \<open>Output\<close> (utils/generic.py) is an \<open>OrderedDict\<close> keyed by the field names: an
  association list, read with \<open>map_of\<close> and written with \<open>AList.update\<close>, which
  replaces the value of a key in place and appends a new key at the end, as the
  ordered dictionary does.
\<close>

type_synonym page = "(string \<times> pyval) list"

section \<open>Stripping (cli/scraper.py, \<open>strip_data\<close>)\<close>

text \<open>\<open>_r.resource_type in keep_request_type\<close>: \<open>None\<close> is in no list of strings.\<close>

definition keeps :: "string list \<Rightarrow> RequestOutput \<Rightarrow> bool" where
  "keeps keep_request_type r =
     (case resource_type r of
        None \<Rightarrow> False
      | Some t \<Rightarrow> t \<in> set keep_request_type)"

text \<open>
  The comprehension \<open>[_r for _r in data[_var] if _r.resource_type in keep_request_type]\<close>.
  It always builds a list. \<open>None\<close> and a \<open>datetime\<close> are not iterable (TypeError); the
  elements of a non-empty \<open>str\<close>, \<open>bytes\<close> or \<open>dict\<close> have no attribute
  \<open>resource_type\<close> (AttributeError).
\<close>

fun filter_requests :: "pyval \<Rightarrow> string list \<Rightarrow> error + pyval" where
  "filter_requests (PList rs) keep = Inr (PList (filter (keeps keep) rs))"
| "filter_requests (PTuple rs) keep = Inr (PList (filter (keeps keep) rs))"
| "filter_requests PNone keep = Inl TypeError"
| "filter_requests (PDate d) keep = Inl TypeError"
| "filter_requests (PStr s) keep = (if s = [] then Inr (PList []) else Inl AttributeError)"
| "filter_requests (PBytes s) keep = (if s = [] then Inr (PList []) else Inl AttributeError)"
| "filter_requests (PDict kv) keep = (if kv = [] then Inr (PList []) else Inl AttributeError)"

text \<open>The \<open>isinstance\<close> chain: a list or tuple becomes \<open>[]\<close>, a dict \<open>{}\<close>, anything else \<open>None\<close>.\<close>

fun blank :: "pyval \<Rightarrow> pyval" where
  "blank (PList rs) = PList []"
| "blank (PTuple rs) = PList []"
| "blank (PDict kv) = PDict []"
| "blank v = PNone"

text \<open>One iteration of the loop over \<open>to_strip\<close>.\<close>

definition strip_var :: "page \<Rightarrow> string \<Rightarrow> string list \<Rightarrow> error + page" where
  "strip_var data var keep_request_type =
     (if var = ''requests'' \<and> keep_request_type \<noteq> [] then
        (case map_of data var of
           None \<Rightarrow> Inl KeyError
         | Some v \<Rightarrow>
             (case filter_requests v keep_request_type of
                Inl e \<Rightarrow> Inl e
              | Inr v' \<Rightarrow> Inr (AList.update var v' data)))
      else
        (case map_of data var of
           None \<Rightarrow> Inr data
         | Some v \<Rightarrow> Inr (AList.update var (blank v) data)))"

text \<open>
  The loop. An exception leaves the dictionary as the iterations before it made it, so
  the loop returns the dictionary together with the exception, if any.
\<close>

fun strip_loop :: "page \<Rightarrow> string list \<Rightarrow> string list \<Rightarrow> page \<times> error option" where
  "strip_loop data [] keep = (data, None)"
| "strip_loop data (var # vars) keep =
     (case strip_var data var keep of
        Inl e \<Rightarrow> (data, Some e)
      | Inr data' \<Rightarrow> strip_loop data' vars keep)"

text \<open>
  \<open>strip_data\<close> assigns into the dictionary it is given and returns that same object.
  Objects live in a heap, a function from references to dictionaries; the call takes
  the heap and a reference and returns the new heap with the reference, or with the
  exception.
\<close>

type_synonym ref = nat
type_synonym heap = "ref \<Rightarrow> page"

definition strip_data :: "heap \<Rightarrow> ref \<Rightarrow> string list \<Rightarrow> string list \<Rightarrow> heap \<times> (error + ref)" where
  "strip_data h data to_strip keep_request_type =
     (case strip_loop (h data) to_strip keep_request_type of
        (d, None) \<Rightarrow> (h(data := d), Inr data)
      | (d, Some e) \<Rightarrow> (h(data := d), Inl e))"

text \<open>Calling \<open>strip_data\<close> on its own result: \<open>strip_data(strip_data(data, f, r), f, r)\<close>.\<close>

definition strip_data_twice :: "heap \<Rightarrow> ref \<Rightarrow> string list \<Rightarrow> string list \<Rightarrow> heap \<times> (error + ref)" where
  "strip_data_twice h data to_strip keep_request_type =
     (case strip_data h data to_strip keep_request_type of
        (h', Inl e) \<Rightarrow> (h', Inl e)
      | (h', Inr data') \<Rightarrow> strip_data h' data' to_strip keep_request_type)"

text \<open>
  What one iteration assigns to a field the dictionary has: the filtered requests, or
  the blank of the field's type. (An auxiliary function, for stating what the loop does.)
\<close>

definition strip_value :: "string \<Rightarrow> string list \<Rightarrow> pyval \<Rightarrow> error + pyval" where
  "strip_value var keep v =
     (if var = ''requests'' \<and> keep \<noteq> [] then filter_requests v keep else Inr (blank v))"

section \<open>Request capture of the page-pool engine (scrapers/playwright_scraper.py)\<close>

text \<open>
  What the browser library hands to the \<open>requestfinished\<close> observer. \<open>pw_response\<close> is the
  result of \<open>request.response()\<close>, \<open>None\<close> when no response was received; \<open>body_result\<close> is
  what \<open>await _response.body()\<close> gives, the bytes or an exception.
\<close>

record pw_response =
  status :: int
  status_text :: string
  body_result :: "error + string"
  all_headers :: "(string \<times> string) list"
  security_details :: "(string \<times> string) list option"

record pw_request =
  pw_url :: string
  post_data :: "string option"
  pw_method :: string
  pw_resource_type :: string
  pw_headers :: "(string \<times> string) list"
  pw_response :: "pw_response option"

text \<open>The parts of \<open>urlparse(url)\<close> the scrapers read; \<open>urlparse\<close> itself is a parameter.\<close>

record parsed_url =
  scheme :: string
  hostname :: string
  port :: int
  netloc :: string
  url_params :: string
  url_path :: string

text \<open>
  \<open>PlaywrightScraper.request_handler\<close>. Line 89 calls \<open>_response.security_details()\<close>
  before the test \<open>_response and _response.status == 200\<close>, so a request without a
  response raises AttributeError there. \<open>now\<close> stands for \<open>datetime.now()\<close>.
\<close>

definition request_handler ::
  "(string \<Rightarrow> parsed_url) \<Rightarrow> int \<Rightarrow> pw_request \<Rightarrow> error + RequestOutput" where
  "request_handler urlparse now request =
     (case pw_response request of
        None \<Rightarrow> Inl AttributeError
      | Some r \<Rightarrow>
          (let request_url = urlparse (pw_url request);
               build = (\<lambda>resp c.
                 \<lparr>req_url = pw_url request, req_body = post_data request, cert = c,
                  req_date = now, req_headers = pw_headers request,
                  host = Some (netloc request_url), req_method = Some (pw_method request),
                  params = Some (url_params request_url), path = Some (url_path request_url),
                  resource_type = Some (pw_resource_type request), response = resp\<rparr>)
           in if status r = 200 then
                (case body_result r of
                   Inl e \<Rightarrow> Inl e
                 | Inr b \<Rightarrow>
                     Inr (build
                       (Some \<lparr>resp_body = b, resp_date = now, resp_headers = all_headers r,
                              status_code = status r, reason = Some (status_text r)\<rparr>)
                       (security_details r)))
              else Inr (build None (Some []))))"

text \<open>
  The observer that \<open>scrape\<close> registers for \<open>requestfinished\<close>: it appends the record to
  \<open>_requests\<close>, and an exception of \<open>request_handler\<close> is logged and dropped.
\<close>

definition on_requestfinished ::
  "(string \<Rightarrow> parsed_url) \<Rightarrow> int \<Rightarrow> RequestOutput list \<Rightarrow> pw_request \<Rightarrow> RequestOutput list" where
  "on_requestfinished urlparse now requests request =
     (case request_handler urlparse now request of
        Inl e \<Rightarrow> requests
      | Inr r \<Rightarrow> requests @ [r])"

section \<open>Scraping one page (\<open>PlaywrightScraper.scrape\<close>)\<close>

text \<open>The settings of \<open>BrowserScraper\<close> that \<open>scrape\<close> reads.\<close>

record BrowserScraper =
  implicit_wait :: int
  clear_cookies :: bool
  with_requests :: bool

text \<open>
  The awaited browser calls of \<open>scrape\<close>, and what the browser does for one job:
  which calls raise, the requests that finish on the page, and the values read from
  the page.
\<close>

datatype call =
  NewPage | Route | WaitForTimeout | Goto | Content | Screenshot | FullScreenshot
| ClearCookies | ClosePage

record job_env =
  raises :: "call \<Rightarrow> bool"
  finished_requests :: "pw_request list"
  content :: string
  current_url :: string
  screenshot_bytes :: string
  full_screenshot_bytes :: string

text \<open>The browser context: the pages that are open, and the next fresh page.\<close>

record browser =
  open_pages :: "nat list"
  next_page :: nat

definition new_page :: "browser \<Rightarrow> browser" where
  "new_page b = b\<lparr>open_pages := next_page b # open_pages b, next_page := next_page b + 1\<rparr>"

definition close_page :: "nat \<Rightarrow> browser \<Rightarrow> browser" where
  "close_page p b = b\<lparr>open_pages := removeAll p (open_pages b)\<rparr>"

text \<open>
  \<open>scrape\<close>, call by call. Only the \<open>try\<close> around navigation closes the page before
  re-raising; every other call that raises leaves the function at once. The worker
  passes no \<open>headers\<close>, so that branch is not taken.
\<close>

definition scrape ::
  "(string \<Rightarrow> parsed_url) \<Rightarrow> int \<Rightarrow> BrowserScraper \<Rightarrow> job_env \<Rightarrow> browser \<Rightarrow> string
     \<Rightarrow> browser \<times> (error + page)" where
  "scrape urlparse now self env b url =
     (if raises env NewPage then (b, Inl ScrapeError)
      else
        let page = next_page b;
            b1 = new_page b;
            requests =
              (if with_requests self
               then foldl (on_requestfinished urlparse now) [] (finished_requests env)
               else [])
        in
          if raises env Route then (b1, Inl ScrapeError)
          else if implicit_wait self \<noteq> 0 \<and> raises env WaitForTimeout then (b1, Inl ScrapeError)
          else if raises env Goto then
            (if raises env ClosePage then (b1, Inl ScrapeError)
             else (close_page page b1, Inl ScrapeError))
          else if raises env Content then (b1, Inl ScrapeError)
          else if raises env Screenshot then (b1, Inl ScrapeError)
          else if raises env FullScreenshot then (b1, Inl ScrapeError)
          else if clear_cookies self \<and> raises env ClearCookies then (b1, Inl ScrapeError)
          else if raises env ClosePage then (b1, Inl ScrapeError)
          else
            (close_page page b1,
             Inr [(''request_url'', PStr url), (''url'', PStr (current_url env)),
                  (''date'', PDate now), (''body'', PBytes (content env)),
                  (''requests'', PList requests),
                  (''screenshot'', PBytes (screenshot_bytes env)),
                  (''full_screenshot'', PBytes (full_screenshot_bytes env))]))"

section \<open>The cURL scraper (scrapers/curl_scraper.py)\<close>

text \<open>The libcurl options the scraper sets, and the values it sets them to.\<close>

datatype curl_opt =
  SHARE | PROXY | PROXYPORT | PROXYTYPE | PROXY_SSL_VERIFYHOST | PROXY_SSL_VERIFYPEER
| HTTPHEADER | COOKIEFILE | USERAGENT | SSL_VERIFYPEER | SSL_VERIFYHOST | CAINFO
| FOLLOWLOCATION | MAXREDIRS | CONNECTTIMEOUT | NOSIGNAL | TIMEOUT

datatype opt_val = OInt int | OStr string | OBool bool | OStrs "string list" | OShare

text \<open>
  The keyword arguments of a run, as the command line gives them: \<open>to_strip\<close> and
  \<open>content_to_keep\<close> are \<open>strip_data\<close> and \<open>keep_content\<close> after \<open>split()\<close>, the other
  fields are the arguments of the scraper's constructor.
\<close>

record kwargs =
  num_conn :: int
  to_strip :: "string list"
  content_to_keep :: "string list"
  kw_timeout :: "int option"
  kw_headers :: "string list option"
  kw_user_agent :: "string option"
  kw_proxy :: "string option"
  kw_cookie_file :: "string option"
  kw_allow_redirects :: bool
  kw_max_redirects :: int
  kw_no_ssl :: bool

record CurlScraper =
  timeout :: "int option"
  headers :: "string list option"
  user_agent :: "string option"
  proxy :: "string option"
  cookie_file :: "string option"
  allow_redirects :: bool
  max_redirects :: int
  no_ssl :: bool
  curl_options :: "(curl_opt \<times> opt_val) list"

text \<open>\<open>CurlScraper.__init__\<close>: the option list starts empty.\<close>

definition CurlScraper_init :: "kwargs \<Rightarrow> CurlScraper" where
  "CurlScraper_init kw =
     \<lparr>timeout = kw_timeout kw, headers = kw_headers kw, user_agent = kw_user_agent kw,
      proxy = kw_proxy kw, cookie_file = kw_cookie_file kw,
      allow_redirects = kw_allow_redirects kw, max_redirects = kw_max_redirects kw,
      no_ssl = kw_no_ssl kw, curl_options = []\<rparr>"

definition add_curl_option :: "curl_opt \<Rightarrow> opt_val \<Rightarrow> CurlScraper \<Rightarrow> CurlScraper" where
  "add_curl_option name val self = self\<lparr>curl_options := curl_options self @ [(name, val)]\<rparr>"

text \<open>Python truthiness of an optional string or list: neither \<open>None\<close> nor empty.\<close>

definition truthy :: "'a list option \<Rightarrow> bool" where
  "truthy x = (case x of None \<Rightarrow> False | Some v \<Rightarrow> v \<noteq> [])"

text \<open>
  \<open>CurlScraper.setup\<close>. It returns the scraper with the options accumulated, and the
  exception if one is raised: with a proxy, line 143 reads the attribute \<open>setopt\<close> of the
  bound method \<open>self._add_curl_option\<close>, which raises AttributeError after the proxy
  host and port were added. \<open>cainfo\<close> stands for \<open>certifi.where()\<close>.
\<close>

definition CurlScraper_setup ::
  "(string \<Rightarrow> parsed_url) \<Rightarrow> string \<Rightarrow> CurlScraper \<Rightarrow> CurlScraper \<times> error option" where
  "CurlScraper_setup urlparse cainfo self =
     (let s1 = add_curl_option SHARE OShare self in
      if truthy (proxy s1) then
        (let parsed_proxy = urlparse (the (proxy s1));
             s2 = add_curl_option PROXY
                    (OStr (scheme parsed_proxy @ ''://'' @ hostname parsed_proxy)) s1;
             s3 = add_curl_option PROXYPORT (OInt (port parsed_proxy)) s2
         in (s3, Some AttributeError))
      else
        (let s2 = (if truthy (headers s1)
                   then add_curl_option HTTPHEADER (OStrs (the (headers s1))) s1 else s1);
             s3 = (case cookie_file s2 of
                     None \<Rightarrow> s2
                   | Some f \<Rightarrow> add_curl_option COOKIEFILE (OStr f) s2);
             s4 = (if truthy (user_agent s3)
                   then add_curl_option USERAGENT (OStr (the (user_agent s3))) s3 else s3);
             s5 = (if no_ssl s4
                   then add_curl_option SSL_VERIFYHOST (OInt 0)
                          (add_curl_option SSL_VERIFYPEER (OInt 0) s4)
                   else add_curl_option CAINFO (OStr cainfo)
                          (add_curl_option SSL_VERIFYHOST (OInt 2)
                            (add_curl_option SSL_VERIFYPEER (OInt 1) s4)));
             s6 = (if allow_redirects s5
                   then add_curl_option MAXREDIRS (OInt (max_redirects s5))
                          (add_curl_option FOLLOWLOCATION (OBool (allow_redirects s5)) s5)
                   else s5);
             s7 = add_curl_option NOSIGNAL (OInt 1)
                    (add_curl_option CONNECTTIMEOUT (OInt 30) s6);
             s8 = (case timeout s7 of
                     None \<Rightarrow> s7
                   | Some t \<Rightarrow> add_curl_option TIMEOUT (OInt t) s7)
         in (s8, None)))"

text \<open>
  A pycurl handle: its identity and the options set on it. \<open>_curl_instance\<close> creates a
  handle and sets every option of \<open>self.curl_options\<close>, in order.
\<close>

record curl_handle =
  hid :: nat
  handle_options :: "(curl_opt \<times> opt_val) list"

definition curl_instance :: "CurlScraper \<Rightarrow> nat \<Rightarrow> curl_handle" where
  "curl_instance self i = \<lparr>hid = i, handle_options = curl_options self\<rparr>"

section \<open>The connection-pool driver (cli/scraper.py, \<open>_curl_main\<close>)\<close>

text \<open>\<open>os.linesep\<close>, by platform.\<close>

datatype platform = Posix | Windows

fun linesep :: "platform \<Rightarrow> string" where
  "linesep Posix = [CHR 0x0A]"
| "linesep Windows = [CHR 0x0D, CHR 0x0A]"

text \<open>What libcurl reports for a finished transfer (read by \<open>CurlWrapper.get_result\<close>).\<close>

record transfer =
  effective_url :: string
  certinfo :: "(string \<times> string) list"
  body_bytes :: string
  response_headers :: "(string \<times> string) list"
  http_code :: int

datatype outcome = Succeeded string transfer | Failed nat int string

text \<open>
  The state of a run: the handles of the multi object, the free list (handles by
  identity), the pending urls, the url each handle's wrapper \<open>c.cw\<close> was assigned (latest
  first), the handles added to the multi stack, the counters, and the output file
  (\<open>None\<close> until it is opened; the position is always the end). \<open>started\<close> counts the
  \<open>add_handle\<close> calls, the only place where a transfer begins. \<open>results\<close> is a ghost
  field: the log of the finished jobs in completion order, a success with its url and
  what libcurl reported, a failure with its handle, error number and message.
\<close>

record curl_run =
  handles :: "curl_handle list"
  freelist :: "nat list"
  queue :: "string list"
  wrappers :: "(nat \<times> string) list"
  multi :: "nat list"
  started :: nat
  num_processed :: nat
  pbar :: nat
  output_fp :: "string option"
  results :: "outcome list"

definition idle_run :: curl_run where
  "idle_run =
     \<lparr>handles = [], freelist = [], queue = [], wrappers = [], multi = [], started = 0,
      num_processed = 0, pbar = 0, output_fp = None, results = []\<rparr>"

text \<open>
  Lines 45 to 75: the scraper is constructed (\<open>setup\<close> is not called), the assertion on
  \<open>num_conn\<close> is checked, the output file is opened for writing, \<open>num_conn\<close> is cut down
  to the number of urls, and that many handles are created. \<open>urls\<close> is what \<open>get_urls\<close>
  read from the input file.
\<close>

definition curl_prepare :: "kwargs \<Rightarrow> string list \<Rightarrow> curl_run \<times> error option" where
  "curl_prepare kw urls =
     (let scrapper = CurlScraper_init kw in
      if \<not> (1 \<le> num_conn kw \<and> num_conn kw \<le> 10000) then (idle_run, Some AssertionError)
      else
        (let num_urls = length urls;
             n = min (num_conn kw) (int num_urls);
             hs = map (curl_instance scrapper) [0..<nat n]
         in (idle_run\<lparr>handles := hs, freelist := map hid hs, queue := urls,
                        output_fp := Some []\<rparr>, None)))"

text \<open>
  Lines 79 to 90: while there is a url and a free handle, the first url is bound to
  the last handle of the free list and the handle is added to the multi stack.
\<close>

function bind_jobs :: "curl_run \<Rightarrow> curl_run" where
  "bind_jobs st =
     (if queue st \<noteq> [] \<and> freelist st \<noteq> [] then
        bind_jobs (st\<lparr>queue := tl (queue st),
                      freelist := butlast (freelist st),
                      wrappers := (last (freelist st), hd (queue st)) # wrappers st,
                      multi := last (freelist st) # multi st,
                      started := started st + 1\<rparr>)
      else st)"
  by pat_completeness auto
termination
  by (relation "measure (\<lambda>st. length (queue st))") auto

text \<open>
  One result of \<open>m.info_read()\<close>: the number of messages still queued, the handles that
  succeeded, and the handles that failed with their error number and message.
\<close>

type_synonym info = "nat \<times> (nat \<times> transfer) list \<times> (nat \<times> int \<times> string) list"

definition get_result :: "int \<Rightarrow> string \<Rightarrow> transfer \<Rightarrow> page" where
  "get_result now url t =
     [(''request_url'', PStr url), (''url'', PStr (effective_url t)), (''date'', PDate now),
      (''body'', PBytes (body_bytes t)),
      (''requests'', PTuple
         [\<lparr>req_url = effective_url t, req_body = None, cert = Some (certinfo t),
           req_date = now, req_headers = [], host = None, req_method = None, params = None,
           path = None, resource_type = None,
           response = Some \<lparr>resp_body = body_bytes t, resp_date = now,
                             resp_headers = response_headers t, status_code = http_code t,
                             reason = None\<rparr>\<rparr>]),
      (''screenshot'', PNone), (''full_screenshot'', PNone)]"

text \<open>
  Lines 102 to 117, for one handle of \<open>ok_list\<close>: the result is read, the handle is
  removed from the multi stack (pycurl raises for a handle that was not added), the
  result is stripped and serialized, the record and the line separator are written,
  and the handle goes back to the free list. \<open>to_json\<close> stands for \<open>convert_data\<close>.
\<close>

definition handle_ok ::
  "platform \<Rightarrow> (page \<Rightarrow> string) \<Rightarrow> int \<Rightarrow> kwargs \<Rightarrow> curl_run \<Rightarrow> nat \<times> transfer
     \<Rightarrow> curl_run \<times> error option" where
  "handle_ok plat to_json now kw st ct =
     (case map_of (wrappers st) (fst ct) of
        None \<Rightarrow> (st, Some AttributeError)
      | Some url \<Rightarrow>
          if fst ct \<notin> set (multi st) then (st, Some OSError)
          else
            (let st1 = st\<lparr>multi := remove1 (fst ct) (multi st)\<rparr> in
             case strip_data (\<lambda>_. get_result now url (snd ct)) 0 (to_strip kw)
                    (content_to_keep kw) of
               (h, Inl e) \<Rightarrow> (st1, Some e)
             | (h, Inr r) \<Rightarrow>
                 (st1\<lparr>output_fp := map_option (\<lambda>f. f @ to_json (h r) @ linesep plat)
                                     (output_fp st1),
                       results := results st1 @ [Succeeded url (snd ct)],
                       freelist := freelist st1 @ [fst ct],
                       pbar := pbar st1 + 1\<rparr>, None)))"

text \<open>Lines 119 to 124, for one entry of \<open>err_list\<close>: nothing is written.\<close>

definition handle_err :: "curl_run \<Rightarrow> nat \<times> int \<times> string \<Rightarrow> curl_run \<times> error option" where
  "handle_err st ce =
     (if fst ce \<notin> set (multi st) then (st, Some OSError)
      else (st\<lparr>multi := remove1 (fst ce) (multi st),
                freelist := freelist st @ [fst ce],
                pbar := pbar st + 1,
                results := results st @ [Failed (fst ce) (fst (snd ce)) (snd (snd ce))]\<rparr>,
            None))"

text \<open>The two \<open>for\<close> loops: an exception ends the loop with the state reached.\<close>

fun for_each :: "('s \<Rightarrow> 'a \<Rightarrow> 's \<times> error option) \<Rightarrow> 's \<Rightarrow> 'a list \<Rightarrow> 's \<times> error option" where
  "for_each f st [] = (st, None)"
| "for_each f st (x # xs) =
     (case f st x of
        (st', Some e) \<Rightarrow> (st', Some e)
      | (st', None) \<Rightarrow> for_each f st' xs)"

text \<open>
  Lines 99 to 128, the inner \<open>while 1\<close>: the results of successive \<open>info_read\<close> calls are
  processed until one reports no queued message. When the list of results is used up,
  \<open>info_read\<close> reports nothing more.
\<close>

fun info_loop ::
  "platform \<Rightarrow> (page \<Rightarrow> string) \<Rightarrow> int \<Rightarrow> kwargs \<Rightarrow> curl_run \<Rightarrow> info list
     \<Rightarrow> curl_run \<times> error option" where
  "info_loop plat to_json now kw st [] = (st, None)"
| "info_loop plat to_json now kw st ((num_q, ok_list, err_list) # rest) =
     (case for_each (handle_ok plat to_json now kw) st ok_list of
        (st1, Some e) \<Rightarrow> (st1, Some e)
      | (st1, None) \<Rightarrow>
          (case for_each handle_err st1 err_list of
             (st2, Some e) \<Rightarrow> (st2, Some e)
           | (st2, None) \<Rightarrow>
               (let st3 = st2\<lparr>num_processed :=
                                 num_processed st2 + length ok_list + length err_list\<rparr>
                in if num_q = 0 then (st3, None)
                   else info_loop plat to_json now kw st3 rest)))"

text \<open>
  Lines 77 to 132, the main loop. Each pass binds jobs, lets libcurl work, and drains
  the results of that pass; \<open>rounds\<close> lists, pass by pass, what \<open>info_read\<close> returns. The
  loop has returned when the value is \<open>Some\<close>; it is \<open>None\<close> when libcurl reports nothing
  more while urls are still unprocessed, so the loop never ends.
\<close>

fun main_loop ::
  "platform \<Rightarrow> (page \<Rightarrow> string) \<Rightarrow> int \<Rightarrow> kwargs \<Rightarrow> nat \<Rightarrow> curl_run \<Rightarrow> info list list
     \<Rightarrow> (curl_run \<times> error option) option" where
  "main_loop plat to_json now kw num_urls st [] =
     (if num_processed st < num_urls then None else Some (st, None))"
| "main_loop plat to_json now kw num_urls st (r # rs) =
     (if num_processed st < num_urls then
        (case info_loop plat to_json now kw (bind_jobs st) r of
           (st', Some e) \<Rightarrow> Some (st', Some e)
         | (st', None) \<Rightarrow> main_loop plat to_json now kw num_urls st' rs)
      else Some (st, None))"

text \<open>
  \<open>truncate(size)\<close> of a binary file: a negative size raises; otherwise the file is cut
  to that many bytes, or padded with zero bytes up to it.
\<close>

definition file_truncate :: "string \<Rightarrow> int \<Rightarrow> error + string" where
  "file_truncate f n =
     (if n < 0 then Inl OSError
      else Inr (take (nat n) f @ replicate (nat n - length f) (CHR 0x00)))"

text \<open>
  Lines 134 to 143: after the handles and the progress bar are closed, the file is
  truncated by the length of the line separator, counted from the current position.
\<close>

definition curl_cleanup :: "platform \<Rightarrow> curl_run \<Rightarrow> curl_run \<times> error option" where
  "curl_cleanup plat st =
     (case output_fp st of
        None \<Rightarrow> (st, Some OSError)
      | Some f \<Rightarrow>
          (case file_truncate f (int (length f) - int (length (linesep plat))) of
             Inl e \<Rightarrow> (st, Some e)
           | Inr f' \<Rightarrow> (st\<lparr>output_fp := Some f'\<rparr>, None)))"

definition curl_main ::
  "platform \<Rightarrow> (page \<Rightarrow> string) \<Rightarrow> int \<Rightarrow> kwargs \<Rightarrow> string list \<Rightarrow> info list list
     \<Rightarrow> (curl_run \<times> error option) option" where
  "curl_main plat to_json now kw urls rounds =
     (case curl_prepare kw urls of
        (st, Some e) \<Rightarrow> Some (st, Some e)
      | (st, None) \<Rightarrow>
          (case main_loop plat to_json now kw (length urls) st rounds of
             None \<Rightarrow> None
           | Some (st', Some e) \<Rightarrow> Some (st', Some e)
           | Some (st', None) \<Rightarrow> Some (curl_cleanup plat st')))"

text \<open>
  The record written for a successful job, and the records of a log: one for each
  success, none for a failure.
\<close>

definition record_of :: "(page \<Rightarrow> string) \<Rightarrow> int \<Rightarrow> kwargs \<Rightarrow> string \<Rightarrow> transfer \<Rightarrow> string" where
  "record_of to_json now kw url t =
     to_json (fst (strip_loop (get_result now url t) (to_strip kw) (content_to_keep kw)))"

fun written :: "(page \<Rightarrow> string) \<Rightarrow> int \<Rightarrow> kwargs \<Rightarrow> outcome list \<Rightarrow> string list" where
  "written to_json now kw [] = []"
| "written to_json now kw (Succeeded url t # log) =
     record_of to_json now kw url t # written to_json now kw log"
| "written to_json now kw (Failed c errno errmsg # log) = written to_json now kw log"

fun succeeded :: "outcome \<Rightarrow> bool" where
  "succeeded (Succeeded url t) = True"
| "succeeded (Failed c errno errmsg) = False"

text \<open>Records separated by one delimiter, with none after the last.\<close>

fun join :: "string \<Rightarrow> string list \<Rightarrow> string" where
  "join sep [] = []"
| "join sep [r] = r"
| "join sep (r # r' # rs) = r @ sep @ join sep (r' # rs)"

section \<open>The page-pool driver (cli/scraper.py, \<open>_playwright_worker\<close> and \<open>_playwright_main\<close>)\<close>

record pw_kwargs =
  num_pages :: int
  pw_to_strip :: "string list"
  pw_content_to_keep :: "string list"

text \<open>
  A worker is suspended at one of its awaits on shared state: at \<open>queue.get()\<close>, before
  \<open>fp.write(data)\<close> with the serialized result in hand, or before \<open>fp.write(linesep)\<close>; or
  it has returned.
\<close>

datatype worker = Waiting | Scraped string | Wrote | Exited

text \<open>
  The shared state: the items of the \<open>asyncio.Queue\<close> (\<open>None\<close> is the stop marker) and its
  count of unfinished tasks, which \<open>put\<close> increments and \<open>task_done\<close> decrements and on
  which \<open>join\<close> waits; the workers; the output file; and the progress bar. \<open>pw_records\<close> is
  a ghost field: the records written, in order.
\<close>

record pw_state =
  job_queue :: "string option list"
  unfinished_tasks :: nat
  workers :: "worker list"
  pw_output :: string
  pw_records :: "string list"
  pw_pbar :: nat

text \<open>
  Lines 211 to 221: one worker task per page is created, then every url is put into the
  queue, then one stop marker per page. The queue is unbounded, so no \<open>put\<close> suspends and
  no worker runs before the main task reaches \<open>join\<close>.
\<close>

definition seed :: "pw_kwargs \<Rightarrow> string list \<Rightarrow> pw_state" where
  "seed kw urls =
     \<lparr>job_queue = map Some urls @ replicate (nat (num_pages kw)) None,
      unfinished_tasks = length urls + nat (num_pages kw),
      workers = replicate (nat (num_pages kw)) Waiting,
      pw_output = [], pw_records = [], pw_pbar = 0\<rparr>"

text \<open>
  The \<open>finally\<close> block of the worker: the progress bar advances and \<open>task_done\<close>
  decrements the count. (\<open>task_done\<close> raises for a count of zero; \<open>pw_inv\<close> below shows the
  count is positive whenever a worker gets here.)
\<close>

definition task_done :: "pw_state \<Rightarrow> pw_state" where
  "task_done st = st\<lparr>pw_pbar := pw_pbar st + 1, unfinished_tasks := unfinished_tasks st - 1\<rparr>"

text \<open>
  \<open>_playwright_scrape_task\<close>: scrape, strip, serialize. \<open>scrape_url\<close> is what
  \<open>scraper.scrape(url)\<close> returns or raises.
\<close>

definition scrape_task ::
  "(page \<Rightarrow> string) \<Rightarrow> pw_kwargs \<Rightarrow> (string \<Rightarrow> error + page) \<Rightarrow> string \<Rightarrow> error + string" where
  "scrape_task to_json kw scrape_url url =
     (case scrape_url url of
        Inl e \<Rightarrow> Inl e
      | Inr data \<Rightarrow>
          (case strip_data (\<lambda>_. data) 0 (pw_to_strip kw) (pw_content_to_keep kw) of
             (h, Inl e) \<Rightarrow> Inl e
           | (h, Inr r) \<Rightarrow> Inr (to_json (h r))))"

text \<open>
  Worker \<open>i\<close> runs from its suspension to the next one. At \<open>queue.get()\<close> it stays
  suspended while the queue is empty; on the stop marker it returns at once, without
  \<open>task_done\<close>; on a url it runs the scrape task, and an exception is swallowed and leads
  through the \<open>finally\<close> block back to \<open>queue.get()\<close>.
\<close>

definition worker_step ::
  "platform \<Rightarrow> (page \<Rightarrow> string) \<Rightarrow> pw_kwargs \<Rightarrow> (string \<Rightarrow> error + page) \<Rightarrow> nat \<Rightarrow> pw_state
     \<Rightarrow> pw_state" where
  "worker_step plat to_json kw scrape_url i st =
     (if length (workers st) \<le> i then st
      else
        (case workers st ! i of
           Exited \<Rightarrow> st
         | Waiting \<Rightarrow>
             (case job_queue st of
                [] \<Rightarrow> st
              | None # q \<Rightarrow> st\<lparr>job_queue := q, workers := (workers st)[i := Exited]\<rparr>
              | Some url # q \<Rightarrow>
                  (case scrape_task to_json kw scrape_url url of
                     Inl e \<Rightarrow> task_done (st\<lparr>job_queue := q\<rparr>)
                   | Inr data \<Rightarrow>
                       st\<lparr>job_queue := q, workers := (workers st)[i := Scraped data]\<rparr>))
         | Scraped data \<Rightarrow>
             st\<lparr>pw_output := pw_output st @ data, pw_records := pw_records st @ [data],
                workers := (workers st)[i := Wrote]\<rparr>
         | Wrote \<Rightarrow>
             task_done (st\<lparr>pw_output := pw_output st @ linesep plat,
                            workers := (workers st)[i := Waiting]\<rparr>)))"

text \<open>
  Line 223, \<open>await job_queue.join()\<close>: it returns when the count of unfinished tasks is
  zero. Until then the workers run, in the order the schedule gives; when the schedule
  is used up and the count is still positive the value is \<open>None\<close>.
\<close>

fun run_until_joined ::
  "platform \<Rightarrow> (page \<Rightarrow> string) \<Rightarrow> pw_kwargs \<Rightarrow> (string \<Rightarrow> error + page) \<Rightarrow> pw_state \<Rightarrow> nat list
     \<Rightarrow> (pw_state \<times> nat list) option" where
  "run_until_joined plat to_json kw scrape_url st [] =
     (if unfinished_tasks st = 0 then Some (st, []) else None)"
| "run_until_joined plat to_json kw scrape_url st (i # sched) =
     (if unfinished_tasks st = 0 then Some (st, i # sched)
      else run_until_joined plat to_json kw scrape_url
             (worker_step plat to_json kw scrape_url i st) sched)"

text \<open>Leaving the task group: it waits until every worker task has returned.\<close>

definition all_exited :: "pw_state \<Rightarrow> bool" where
  "all_exited st = (filter (\<lambda>w. w \<noteq> Exited) (workers st) = [])"

fun run_until_exited ::
  "platform \<Rightarrow> (page \<Rightarrow> string) \<Rightarrow> pw_kwargs \<Rightarrow> (string \<Rightarrow> error + page) \<Rightarrow> pw_state \<Rightarrow> nat list
     \<Rightarrow> pw_state option" where
  "run_until_exited plat to_json kw scrape_url st [] =
     (if all_exited st then Some st else None)"
| "run_until_exited plat to_json kw scrape_url st (i # sched) =
     (if all_exited st then Some st
      else run_until_exited plat to_json kw scrape_url
             (worker_step plat to_json kw scrape_url i st) sched)"

text \<open>
  Lines 225 to 229: the file is truncated by the length of the line separator; an
  exception of \<open>truncate\<close> is caught by \<open>except*\<close> and dropped.
\<close>

definition pw_finish :: "platform \<Rightarrow> pw_state \<Rightarrow> pw_state" where
  "pw_finish plat st =
     (case file_truncate (pw_output st)
             (int (length (pw_output st)) - int (length (linesep plat))) of
        Inl e \<Rightarrow> st
      | Inr f \<Rightarrow> st\<lparr>pw_output := f\<rparr>)"

text \<open>The run returns (\<open>Some\<close>) when \<open>join\<close> returns and the task group is left.\<close>

definition playwright_main ::
  "platform \<Rightarrow> (page \<Rightarrow> string) \<Rightarrow> pw_kwargs \<Rightarrow> (string \<Rightarrow> error + page) \<Rightarrow> string list \<Rightarrow> nat list
     \<Rightarrow> pw_state option" where
  "playwright_main plat to_json kw scrape_url urls sched =
     (case run_until_joined plat to_json kw scrape_url (seed kw urls) sched of
        None \<Rightarrow> None
      | Some (st1, sched1) \<Rightarrow>
          (case run_until_exited plat to_json kw scrape_url st1 sched1 of
             None \<Rightarrow> None
           | Some st2 \<Rightarrow> Some (pw_finish plat st2)))"

section \<open>Example values\<close>

text \<open>A page with two captured requests, used to evaluate the functions on concrete input.\<close>

definition image_request :: RequestOutput where
  "image_request = \<lparr>req_url = ''http://a/i.png'', req_body = None, cert = Some [], req_date = 0,
     req_headers = [], host = Some ''a'', req_method = Some ''GET'', params = Some [],
     path = Some ''/i.png'', resource_type = Some ''image'', response = None\<rparr>"

definition script_request :: RequestOutput where
  "script_request = image_request\<lparr>req_url := ''http://a/s.js'', path := Some ''/s.js'',
     resource_type := Some ''script''\<rparr>"

definition example_page :: page where
  "example_page =
     [(''request_url'', PStr ''http://a''), (''url'', PStr ''http://a/''), (''date'', PDate 0),
      (''body'', PBytes ''<html>''), (''requests'', PList [image_request, script_request]),
      (''screenshot'', PBytes ''png''), (''full_screenshot'', PNone)]"

text \<open>A trivial \<open>urlparse\<close>, a finished request with a response, and a job of the browser.\<close>

definition example_urlparse :: "string \<Rightarrow> parsed_url" where
  "example_urlparse u =
     \<lparr>scheme = ''http'', hostname = ''a'', port = 80, netloc = ''a'', url_params = [],
      url_path = ''/''\<rparr>"

definition example_response :: pw_response where
  "example_response =
     \<lparr>status = 200, status_text = ''OK'', body_result = Inr ''<html>'', all_headers = [],
      security_details = None\<rparr>"

definition example_request :: pw_request where
  "example_request =
     \<lparr>pw_url = ''http://a/'', post_data = None, pw_method = ''GET'',
      pw_resource_type = ''document'', pw_headers = [], pw_response = Some example_response\<rparr>"

definition example_scraper :: BrowserScraper where
  "example_scraper = \<lparr>implicit_wait = 0, clear_cookies = True, with_requests = True\<rparr>"

definition example_job :: job_env where
  "example_job =
     \<lparr>raises = (\<lambda>c. False), finished_requests = [example_request], content = ''<html>'',
      current_url = ''http://a/'', screenshot_bytes = ''png'', full_screenshot_bytes = ''PNG''\<rparr>"

definition empty_browser :: browser where
  "empty_browser = \<lparr>open_pages = [], next_page = 0\<rparr>"

text \<open>
  A run of the connection-pool driver: three urls on two connections; the first and the
  third transfer succeed, the second fails. \<open>example_json\<close> stands in for the serializer.
\<close>

definition example_kwargs :: kwargs where
  "example_kwargs =
     \<lparr>num_conn = 2, to_strip = [], content_to_keep = [], kw_timeout = Some 3000,
      kw_headers = None, kw_user_agent = None, kw_proxy = None, kw_cookie_file = Some [],
      kw_allow_redirects = True, kw_max_redirects = 3, kw_no_ssl = False\<rparr>"

definition example_json :: "page \<Rightarrow> string" where
  "example_json p = (case map_of p ''request_url'' of Some (PStr u) \<Rightarrow> u | _ \<Rightarrow> [])"

definition example_transfer :: transfer where
  "example_transfer =
     \<lparr>effective_url = ''http://x/'', certinfo = [], body_bytes = ''<html>'',
      response_headers = [], http_code = 200\<rparr>"

definition example_urls :: "string list" where
  "example_urls = [''http://a'', ''http://b'', ''http://c'']"

definition example_rounds :: "info list list" where
  "example_rounds =
     [[(0, [(1, example_transfer)], [(0, 7, ''refused'')])],
      [(0, [(0, example_transfer)], [])]]"

definition failing_rounds :: "info list list" where
  "failing_rounds =
     [[(0, [], [(1, 7, ''refused''), (0, 7, ''refused'')])],
      [(0, [], [(0, 28, ''timeout'')])]]"

text \<open>The state of the example run after the preparation, and after its loop when every
  transfer fails.\<close>

definition example_prepared :: curl_run where
  "example_prepared =
     \<lparr>handles = [\<lparr>hid = 0, handle_options = []\<rparr>, \<lparr>hid = 1, handle_options = []\<rparr>],
      freelist = [0, 1], queue = [''http://a'', ''http://b'', ''http://c''], wrappers = [],
      multi = [], started = 0, num_processed = 0, pbar = 0, output_fp = Some [],
      results = []\<rparr>"

definition failing_final :: curl_run where
  "failing_final =
     \<lparr>handles = [\<lparr>hid = 0, handle_options = []\<rparr>, \<lparr>hid = 1, handle_options = []\<rparr>],
      freelist = [1, 0], queue = [],
      wrappers = [(0, ''http://c''), (0, ''http://b''), (1, ''http://a'')],
      multi = [], started = 3, num_processed = 3, pbar = 3, output_fp = Some [],
      results = [Failed 1 7 ''refused'', Failed 0 7 ''refused'', Failed 0 28 ''timeout'']\<rparr>"

text \<open>A run of the page-pool driver with one page and one url whose scrape succeeds.\<close>

definition example_pw_kwargs :: pw_kwargs where
  "example_pw_kwargs = \<lparr>num_pages = 1, pw_to_strip = [], pw_content_to_keep = []\<rparr>"

definition example_scrape_url :: "string \<Rightarrow> error + page" where
  "example_scrape_url url = Inr example_page"

text \<open>The state in which the example run of the connection-pool driver ends.\<close>

definition example_final :: curl_run where
  "example_final =
     \<lparr>handles = [\<lparr>hid = 0, handle_options = []\<rparr>, \<lparr>hid = 1, handle_options = []\<rparr>],
      freelist = [1, 0], queue = [],
      wrappers = [(0, ''http://c''), (0, ''http://b''), (1, ''http://a'')],
      multi = [], started = 3, num_processed = 3, pbar = 3,
      output_fp = Some (''http://a'' @ [CHR 0x0A] @ ''http://c''),
      results = [Succeeded ''http://a'' example_transfer, Failed 0 7 ''refused'',
                 Succeeded ''http://c'' example_transfer]\<rparr>"

text \<open>
  A run of the page-pool driver with two pages: every scrape succeeds with a page that
  carries the url it was asked for.
\<close>

definition two_page_kwargs :: pw_kwargs where
  "two_page_kwargs = \<lparr>num_pages = 2, pw_to_strip = [], pw_content_to_keep = []\<rparr>"

definition example_scrape_page :: "string \<Rightarrow> error + page" where
  "example_scrape_page url = Inr ((''request_url'', PStr url) # tl example_page)"

section \<open>Auxiliary notions\<close>

text \<open>
  The output file of a run holds the record of every success of the log, each followed by
  the line separator.
\<close>

definition file_ok :: "platform \<Rightarrow> (page \<Rightarrow> string) \<Rightarrow> int \<Rightarrow> kwargs \<Rightarrow> curl_run \<Rightarrow> bool" where
  "file_ok plat to_json now kw st =
     (output_fp st =
        Some (concat (map (\<lambda>r. r @ linesep plat) (written to_json now kw (results st)))))"

text \<open>
  The count of unfinished tasks is the number of items in the queue plus the workers
  that hold a url plus the workers that returned; and every worker has either returned
  or still has its stop marker in the queue.
\<close>

fun busy :: "worker \<Rightarrow> bool" where
  "busy (Scraped data) = True"
| "busy Wrote = True"
| "busy w = False"

fun exited :: "worker \<Rightarrow> bool" where
  "exited Exited = True"
| "exited w = False"

definition pw_inv :: "pw_state \<Rightarrow> bool" where
  "pw_inv st =
     (unfinished_tasks st =
        length (job_queue st) + length (filter busy (workers st))
          + length (filter exited (workers st))
      \<and> length (filter (\<lambda>j. j = None) (job_queue st)) + length (filter exited (workers st))
          = length (workers st))"

text \<open>
  What the main loop of the connection-pool driver reads from libcurl. One pass of the
  inner loop processes the results of \<open>info_read\<close> up to the first that reports no queued
  message; the main loop makes a pass for each round while fewer than \<open>num_urls\<close> jobs
  are processed, and each result processes as many jobs as it lists.
\<close>

fun drained :: "info list \<Rightarrow> info list" where
  "drained [] = []"
| "drained ((num_q, ok_list, err_list) # rest) =
     (num_q, ok_list, err_list) # (if num_q = 0 then [] else drained rest)"

definition info_count :: "info \<Rightarrow> nat" where
  "info_count m = length (fst (snd m)) + length (snd (snd m))"

fun processed :: "nat \<Rightarrow> nat \<Rightarrow> info list list \<Rightarrow> info list" where
  "processed num_urls p [] = []"
| "processed num_urls p (r # rs) =
     (if p < num_urls
      then drained r @ processed num_urls (p + sum_list (map info_count (drained r))) rs
      else [])"

text \<open>
  What libcurl reported for an entry of the log, and the reports of one result of
  \<open>info_read\<close> in the order the driver handles them: the successes, then the failures.
\<close>

fun report_of :: "outcome \<Rightarrow> transfer + nat \<times> int \<times> string" where
  "report_of (Succeeded url t) = Inl t"
| "report_of (Failed c errno errmsg) = Inr (c, errno, errmsg)"

definition reports :: "info \<Rightarrow> (transfer + nat \<times> int \<times> string) list" where
  "reports m = map (\<lambda>ct. Inl (snd ct)) (fst (snd m)) @ map Inr (snd (snd m))"

section \<open>Properties of stripping\<close>

lemma strip_var_keys: "strip_var d v ks = Inr d' \<Longrightarrow> map fst d' = map fst d"
  by (auto simp: strip_var_def update_keys image_iff
      split: if_splits option.splits sum.splits dest!: map_of_SomeD) force+

lemma strip_var_other: "strip_var d v ks = Inr d' \<Longrightarrow> k \<noteq> v \<Longrightarrow> map_of d' k = map_of d k"
  by (auto simp: strip_var_def update_conv' split: if_splits option.splits sum.splits)

lemma filter_requests_idem: "filter_requests x ks = Inr y \<Longrightarrow> filter_requests y ks = Inr y"
  by (cases x) (auto split: if_splits)

lemma blank_idem: "blank (blank x) = blank x"
  by (cases x) auto

lemma update_fixed: "AList.update k y al = al \<Longrightarrow> map_of al k = Some y"
  by (metis update_conv' fun_upd_same)

lemma strip_var_filter_settled:
  assumes "v = ''requests'' \<and> ks \<noteq> []"
  shows "strip_var d v ks = Inr d \<longleftrightarrow> (\<exists>x. map_of d v = Some x \<and> filter_requests x ks = Inr x)"
proof (cases "map_of d v")
  case None
  with assms show ?thesis by (auto simp: strip_var_def)
next
  case (Some x)
  have upd: "AList.update v y d = d \<longleftrightarrow> x = y" for y
    using Some update_fixed [of v y d] update_triv [of d v x] by auto
  from assms Some have "strip_var d v ks =
      (case filter_requests x ks of Inl e \<Rightarrow> Inl e | Inr v' \<Rightarrow> Inr (AList.update v v' d))"
    by (auto simp: strip_var_def)
  with Some upd show ?thesis by (cases "filter_requests x ks") auto
qed

lemma strip_var_blank_settled:
  assumes "\<not> (v = ''requests'' \<and> ks \<noteq> [])"
  shows "strip_var d v ks = Inr d \<longleftrightarrow> (\<forall>x. map_of d v = Some x \<longrightarrow> blank x = x)"
proof (cases "map_of d v")
  case None
  with assms show ?thesis by (auto simp: strip_var_def)
next
  case (Some x)
  have upd: "AList.update v y d = d \<longleftrightarrow> y = x" for y
    using Some update_fixed [of v y d] update_triv [of d v x] by auto
  from assms Some have "strip_var d v ks = Inr (AList.update v (blank x) d)"
    by (auto simp: strip_var_def)
  with Some upd show ?thesis by auto
qed

lemma strip_var_settles: "strip_var d v ks = Inr d' \<Longrightarrow> strip_var d' v ks = Inr d'"
proof -
  assume a: "strip_var d v ks = Inr d'"
  show ?thesis
  proof (cases "map_of d v")
    case None
    with a show ?thesis by (auto simp: strip_var_def split: if_splits)
  next
    case (Some x)
    show ?thesis
    proof (cases "v = ''requests'' \<and> ks \<noteq> []")
      case True
      with a Some obtain y where y: "filter_requests x ks = Inr y" and d': "d' = AList.update v y d"
        by (auto simp: strip_var_def split: sum.splits)
      have "map_of d' v = Some y" by (simp add: d' update_conv')
      moreover have "filter_requests y ks = Inr y" using y by (rule filter_requests_idem)
      ultimately show ?thesis using strip_var_filter_settled [OF True, of d'] by blast
    next
      case False
      with a Some have d': "d' = AList.update v (blank x) d"
        by (auto simp: strip_var_def)
      have "map_of d' v = Some (blank x)" by (simp add: d' update_conv')
      then show ?thesis using strip_var_blank_settled [OF False, of d'] by (simp add: blank_idem)
    qed
  qed
qed

lemma strip_var_keeps_settled:
  assumes "strip_var d v ks = Inr d" and "strip_var d w ks = Inr d'"
  shows "strip_var d' v ks = Inr d'"
proof (cases "w = v")
  case True
  have e: "strip_var d v ks = Inr d'" using assms(2) unfolding True .
  have "(Inr d :: error + page) = Inr d'" using assms(1) e by (rule trans [OF sym])
  then have "d = d'" by (rule Inr_inject)
  then show ?thesis using e by (simp only:)
next
  case False
  then have "v \<noteq> w" by (rule not_sym)
  with assms(2) have same: "map_of d' v = map_of d v"
    by (rule strip_var_other)
  show ?thesis
  proof (cases "v = ''requests'' \<and> ks \<noteq> []")
    case c: True
    from assms(1) have "\<exists>x. map_of d v = Some x \<and> filter_requests x ks = Inr x"
      by (rule strip_var_filter_settled [OF c, THEN iffD1])
    with same have "\<exists>x. map_of d' v = Some x \<and> filter_requests x ks = Inr x"
      by simp
    then show ?thesis
      by (rule strip_var_filter_settled [OF c, THEN iffD2])
  next
    case c: False
    from assms(1) have "\<forall>x. map_of d v = Some x \<longrightarrow> blank x = x"
      by (rule strip_var_blank_settled [OF c, THEN iffD1])
    with same have "\<forall>x. map_of d' v = Some x \<longrightarrow> blank x = x"
      by simp
    then show ?thesis
      by (rule strip_var_blank_settled [OF c, THEN iffD2])
  qed
qed

lemma strip_loop_keeps_settled:
  "strip_var d v ks = Inr d \<Longrightarrow> strip_loop d ts ks = (d', None) \<Longrightarrow> strip_var d' v ks = Inr d'"
proof (induction ts arbitrary: d)
  case Nil
  then show ?case by simp
next
  case (Cons w ws)
  from Cons.prems(2) obtain d1 where w: "strip_var d w ks = Inr d1"
    and rest: "strip_loop d1 ws ks = (d', None)"
    by (auto split: sum.splits)
  from Cons.prems(1) w have "strip_var d1 v ks = Inr d1"
    by (rule strip_var_keeps_settled)
  then show ?case using rest by (rule Cons.IH)
qed

lemma strip_loop_settles:
  "strip_loop d ts ks = (d', None) \<Longrightarrow> v \<in> set ts \<Longrightarrow> strip_var d' v ks = Inr d'"
proof (induction ts arbitrary: d)
  case Nil
  then show ?case by simp
next
  case (Cons w ws)
  from Cons.prems(1) obtain d1 where w: "strip_var d w ks = Inr d1"
    and rest: "strip_loop d1 ws ks = (d', None)"
    by (auto split: sum.splits)
  show ?case
  proof (cases "v = w")
    case True
    from w have "strip_var d1 w ks = Inr d1" by (rule strip_var_settles)
    then have "strip_var d' w ks = Inr d'" using rest by (rule strip_loop_keeps_settled)
    with True show ?thesis by simp
  next
    case False
    with Cons.prems(2) have "v \<in> set ws" by simp
    with rest show ?thesis by (rule Cons.IH)
  qed
qed

lemma strip_loop_settled:
  "(\<And>v. v \<in> set ts \<Longrightarrow> strip_var d v ks = Inr d) \<Longrightarrow> strip_loop d ts ks = (d, None)"
  by (induction ts) auto

lemma strip_loop_idem:
  "strip_loop d ts ks = (d', None) \<Longrightarrow> strip_loop d' ts ks = (d', None)"
  by (rule strip_loop_settled) (rule strip_loop_settles)

lemma strip_var_absent: "map_of d w = None \<Longrightarrow> strip_var d w ks = Inr d1 \<Longrightarrow> d1 = d"
  by (auto simp: strip_var_def split: if_splits)

lemma strip_var_present:
  assumes "map_of d w = Some v"
  shows "strip_var d w ks =
    (case strip_value w ks v of Inl e \<Rightarrow> Inl e | Inr v1 \<Rightarrow> Inr (AList.update w v1 d))"
  using assms by (auto simp: strip_var_def strip_value_def)

lemma strip_var_same:
  assumes "map_of d k = Some v" and "strip_var d k ks = Inr d1"
  shows "\<exists>v1. strip_value k ks v = Inr v1 \<and> map_of d1 k = Some v1"
proof (cases "strip_value k ks v")
  case (Inl e)
  with assms show ?thesis by (simp add: strip_var_present)
next
  case (Inr v1)
  with assms have "d1 = AList.update k v1 d" by (simp add: strip_var_present)
  then have "map_of d1 k = Some v1" by (simp add: update_conv')
  with Inr show ?thesis by simp
qed

lemma strip_value_idem: "strip_value k ks v = Inr v1 \<Longrightarrow> strip_value k ks v1 = Inr v1"
  by (auto simp: strip_value_def blank_idem filter_requests_idem split: if_splits)

lemma strip_loop_keys: "strip_loop d ts ks = (d', r) \<Longrightarrow> map fst d' = map fst d"
proof (induction ts arbitrary: d)
  case Nil
  then show ?case by simp
next
  case (Cons w ws)
  show ?case
  proof (cases "strip_var d w ks")
    case (Inl e)
    with Cons.prems show ?thesis by simp
  next
    case (Inr d1)
    with Cons.prems have "strip_loop d1 ws ks = (d', r)" by simp
    then have "map fst d' = map fst d1" by (rule Cons.IH)
    also have "\<dots> = map fst d" using Inr by (rule strip_var_keys)
    finally show ?thesis .
  qed
qed

lemma strip_loop_other:
  "strip_loop d ts ks = (d', r) \<Longrightarrow> k \<notin> set ts \<Longrightarrow> map_of d' k = map_of d k"
proof (induction ts arbitrary: d)
  case Nil
  then show ?case by simp
next
  case (Cons w ws)
  from Cons.prems(2) have kw: "k \<noteq> w" and kws: "k \<notin> set ws" by auto
  show ?case
  proof (cases "strip_var d w ks")
    case (Inl e)
    with Cons.prems show ?thesis by simp
  next
    case (Inr d1)
    with Cons.prems have "strip_loop d1 ws ks = (d', r)" by simp
    then have "map_of d' k = map_of d1 k" using kws by (rule Cons.IH)
    also have "\<dots> = map_of d k" using Inr kw by (rule strip_var_other)
    finally show ?thesis .
  qed
qed

lemma strip_loop_named:
  "strip_loop d ts ks = (d', None) \<Longrightarrow> k \<in> set ts \<Longrightarrow> map_of d k = Some v \<Longrightarrow>
     \<exists>v1. strip_value k ks v = Inr v1 \<and> map_of d' k = Some v1"
proof (induction ts arbitrary: d v)
  case Nil
  then show ?case by simp
next
  case (Cons w ws)
  from Cons.prems(1) obtain d1 where w: "strip_var d w ks = Inr d1"
    and rest: "strip_loop d1 ws ks = (d', None)"
    by (auto split: sum.splits)
  show ?case
  proof (cases "k = w")
    case True
    from Cons.prems(3) w obtain v1 where v1: "strip_value k ks v = Inr v1" "map_of d1 k = Some v1"
      unfolding True using strip_var_same by blast
    show ?thesis
    proof (cases "k \<in> set ws")
      case True
      with rest v1(2) obtain v2 where "strip_value k ks v1 = Inr v2" "map_of d' k = Some v2"
        using Cons.IH by blast
      with v1(1) show ?thesis by (simp add: strip_value_idem)
    next
      case False
      with rest have "map_of d' k = map_of d1 k" by (rule strip_loop_other)
      with v1 show ?thesis by simp
    qed
  next
    case False
    with Cons.prems(2) have "k \<in> set ws" by simp
    moreover from w False have "map_of d1 k = map_of d k" by (rule strip_var_other)
    with Cons.prems(3) have "map_of d1 k = Some v" by simp
    ultimately show ?thesis using rest Cons.IH by blast
  qed
qed

lemma strip_value_seq:
  assumes "v = PList rs \<or> v = PTuple rs"
  shows "strip_value ''requests'' ks v = Inr (PList (if ks = [] then [] else filter (keeps ks) rs))"
  using assms by (auto simp: strip_value_def)

lemma strip_var_ok:
  assumes "map_of d ''requests'' = Some v" and "v = PList rs \<or> v = PTuple rs"
  shows "\<exists>d1 v1 rs1. strip_var d w ks = Inr d1 \<and> map_of d1 ''requests'' = Some v1
           \<and> (v1 = PList rs1 \<or> v1 = PTuple rs1)"
proof (cases "w = ''requests''")
  case True
  let ?v1 = "PList (if ks = [] then [] else filter (keeps ks) rs)"
  have "strip_var d w ks = Inr (AList.update w ?v1 d)"
    using assms True by (simp add: strip_var_present strip_value_seq)
  moreover have "map_of (AList.update w ?v1 d) ''requests'' = Some ?v1"
    using True by (simp add: update_conv')
  ultimately show ?thesis by blast
next
  case False
  show ?thesis
  proof (cases "map_of d w")
    case None
    with False have "strip_var d w ks = Inr d" by (simp add: strip_var_def)
    with assms show ?thesis by blast
  next
    case (Some x)
    with False have "strip_var d w ks = Inr (AList.update w (blank x) d)"
      by (simp add: strip_var_def)
    moreover have "map_of (AList.update w (blank x) d) ''requests'' = Some v"
      using False assms(1) by (simp add: update_conv')
    ultimately show ?thesis using assms(2) by blast
  qed
qed

lemma strip_loop_ok:
  "map_of d ''requests'' = Some v \<Longrightarrow> v = PList rs \<or> v = PTuple rs \<Longrightarrow>
     \<exists>d'. strip_loop d ts ks = (d', None)"
proof (induction ts arbitrary: d v rs)
  case Nil
  then show ?case by simp
next
  case (Cons w ws)
  from strip_var_ok [OF Cons.prems, of w ks]
  obtain d1 v1 rs1 where s: "strip_var d w ks = Inr d1"
    and m: "map_of d1 ''requests'' = Some v1" and q: "v1 = PList rs1 \<or> v1 = PTuple rs1"
    by blast
  from Cons.IH [OF m q] obtain d' where "strip_loop d1 ws ks = (d', None)" by blast
  with s show ?case by simp
qed

section \<open>Properties of the connection-pool driver\<close>

lemma written_append:
  "written to_json now kw (xs @ ys) = written to_json now kw xs @ written to_json now kw ys"
  by (induction to_json now kw xs rule: written.induct) auto

lemma written_length: "length (written to_json now kw log) = length (filter succeeded log)"
  by (induction to_json now kw log rule: written.induct) auto

lemma strip_data_value:
  "strip_data h a ts ks = (h', Inr r) \<Longrightarrow> h' r = fst (strip_loop (h a) ts ks)"
  by (auto simp: strip_data_def split: prod.splits option.splits)

lemma for_each_preserves:
  assumes step: "\<And>s x s' r. P s \<Longrightarrow> f s x = (s', r) \<Longrightarrow> P s'"
  shows "P st \<Longrightarrow> for_each f st xs = (st', r) \<Longrightarrow> P st'"
proof (induction xs arbitrary: st)
  case Nil
  then show ?case by simp
next
  case (Cons x xs)
  obtain s1 r1 where fx: "f st x = (s1, r1)" by (cases "f st x")
  with Cons.prems(1) have p1: "P s1" by (rule step)
  show ?case
  proof (cases r1)
    case None
    with fx Cons.prems(2) have "for_each f s1 xs = (st', r)" by simp
    with p1 show ?thesis by (rule Cons.IH)
  next
    case (Some e)
    with fx Cons.prems(2) have "st' = s1" by simp
    with p1 show ?thesis by simp
  qed
qed

lemma handle_ok_file:
  assumes "file_ok plat to_json now kw st" and "handle_ok plat to_json now kw st ct = (st', r)"
  shows "file_ok plat to_json now kw st'"
proof (cases "map_of (wrappers st) (fst ct)")
  case None
  with assms show ?thesis by (simp add: handle_ok_def)
next
  case (Some url)
  show ?thesis
  proof (cases "fst ct \<in> set (multi st)")
    case False
    with Some assms show ?thesis by (simp add: handle_ok_def)
  next
    case True
    obtain h x where sd: "strip_data (\<lambda>_. get_result now url (snd ct)) 0 (to_strip kw)
        (content_to_keep kw) = (h, x)"
      by (cases "strip_data (\<lambda>_. get_result now url (snd ct)) 0 (to_strip kw) (content_to_keep kw)")
    show ?thesis
    proof (cases x)
      case (Inl e)
      with Some True sd assms show ?thesis
        by (auto simp: handle_ok_def Let_def file_ok_def)
    next
      case (Inr a)
      with sd have "h a = fst (strip_loop (get_result now url (snd ct)) (to_strip kw)
          (content_to_keep kw))"
        using strip_data_value by fastforce
      then have "to_json (h a) = record_of to_json now kw url (snd ct)"
        by (simp add: record_of_def)
      with Some True sd Inr assms show ?thesis
        by (auto simp: handle_ok_def Let_def file_ok_def written_append)
    qed
  qed
qed

lemma handle_err_file:
  assumes "file_ok plat to_json now kw st" and "handle_err st ce = (st', r)"
  shows "file_ok plat to_json now kw st'"
  using assms by (auto simp: handle_err_def file_ok_def written_append split: if_splits)

declare bind_jobs.simps [simp del]

lemma bind_jobs_frame:
  "output_fp (bind_jobs st) = output_fp st \<and> results (bind_jobs st) = results st
   \<and> handles (bind_jobs st) = handles st \<and> num_processed (bind_jobs st) = num_processed st"
proof (induction st rule: bind_jobs.induct)
  case (1 st)
  show ?case
  proof (cases "queue st \<noteq> [] \<and> freelist st \<noteq> []")
    case True
    have "bind_jobs st = bind_jobs (st\<lparr>queue := tl (queue st),
                      freelist := butlast (freelist st),
                      wrappers := (last (freelist st), hd (queue st)) # wrappers st,
                      multi := last (freelist st) # multi st,
                      started := started st + 1\<rparr>)"
      using True by (subst bind_jobs.simps) simp
    with 1 [OF True] show ?thesis by simp
  next
    case False
    have "bind_jobs st = st"
      using False by (subst bind_jobs.simps) auto
    then show ?thesis by simp
  qed
qed

lemma info_loop_preserves:
  assumes ok: "\<And>s x s' r. P s \<Longrightarrow> handle_ok plat to_json now kw s x = (s', r) \<Longrightarrow> P s'"
    and err: "\<And>s x s' r. P s \<Longrightarrow> handle_err s x = (s', r) \<Longrightarrow> P s'"
    and np: "\<And>s n. P s \<Longrightarrow> P (s\<lparr>num_processed := n\<rparr>)"
  shows "P st \<Longrightarrow> info_loop plat to_json now kw st msgs = (st', r) \<Longrightarrow> P st'"
proof (induction msgs arbitrary: st)
  case Nil
  then show ?case by simp
next
  case (Cons m ms)
  obtain num_q ok_list err_list where m: "m = (num_q, ok_list, err_list)" by (cases m)
  obtain s1 r1 where f1: "for_each (handle_ok plat to_json now kw) st ok_list = (s1, r1)"
    by (cases "for_each (handle_ok plat to_json now kw) st ok_list")
  have p1: "P s1" using ok Cons.prems(1) f1 by (rule for_each_preserves)
  show ?case
  proof (cases r1)
    case (Some e)
    with Cons.prems(2) m f1 have "st' = s1" by simp
    with p1 show ?thesis by simp
  next
    case None
    obtain s2 r2 where f2: "for_each handle_err s1 err_list = (s2, r2)"
      by (cases "for_each handle_err s1 err_list")
    have p2: "P s2" using err p1 f2 by (rule for_each_preserves)
    show ?thesis
    proof (cases r2)
      case (Some e)
      with Cons.prems(2) m f1 f2 None have "st' = s2" by simp
      with p2 show ?thesis by simp
    next
      case r2: None
      let ?s3 = "s2\<lparr>num_processed := num_processed s2 + length ok_list + length err_list\<rparr>"
      have p3: "P ?s3" using p2 by (rule np)
      show ?thesis
      proof (cases "num_q = 0")
        case True
        with Cons.prems(2) m f1 f2 None r2 have "st' = ?s3" by (simp add: Let_def)
        with p3 show ?thesis by simp
      next
        case False
        with Cons.prems(2) m f1 f2 None r2
        have "info_loop plat to_json now kw ?s3 ms = (st', r)" by (simp add: Let_def)
        with p3 show ?thesis by (rule Cons.IH)
      qed
    qed
  qed
qed

lemma main_loop_preserves:
  assumes ok: "\<And>s x s' r. P s \<Longrightarrow> handle_ok plat to_json now kw s x = (s', r) \<Longrightarrow> P s'"
    and err: "\<And>s x s' r. P s \<Longrightarrow> handle_err s x = (s', r) \<Longrightarrow> P s'"
    and np: "\<And>s n. P s \<Longrightarrow> P (s\<lparr>num_processed := n\<rparr>)"
    and bind: "\<And>s. P s \<Longrightarrow> P (bind_jobs s)"
  shows "P st \<Longrightarrow> main_loop plat to_json now kw n st rounds = Some (st', r) \<Longrightarrow> P st'"
proof (induction rounds arbitrary: st)
  case Nil
  then show ?case by (simp split: if_splits)
next
  case (Cons m ms)
  show ?case
  proof (cases "num_processed st < n")
    case False
    with Cons.prems show ?thesis by simp
  next
    case True
    obtain s1 r1 where il: "info_loop plat to_json now kw (bind_jobs st) m = (s1, r1)"
      by (cases "info_loop plat to_json now kw (bind_jobs st) m")
    have pb: "P (bind_jobs st)" using Cons.prems(1) by (rule bind)
    have p1: "P s1"
      by (rule info_loop_preserves [where P = P, OF _ _ _ pb il]) (erule ok err np, assumption?)+
    show ?thesis
    proof (cases r1)
      case (Some e)
      with True il Cons.prems(2) have "st' = s1" by simp
      with p1 show ?thesis by simp
    next
      case None
      with True il Cons.prems(2) have "main_loop plat to_json now kw n s1 ms = Some (st', r)"
        by simp
      with p1 show ?thesis by (rule Cons.IH)
    qed
  qed
qed

lemma linesep_nonempty: "linesep plat \<noteq> []"
  by (cases plat) auto

lemma concat_join:
  "rs \<noteq> [] \<Longrightarrow> concat (map (\<lambda>r. r @ sep) rs) = join sep rs @ sep"
  by (induction sep rs rule: join.induct) auto

lemma truncate_join:
  assumes "rs \<noteq> []"
  shows "file_truncate (concat (map (\<lambda>r. r @ sep) rs))
           (int (length (concat (map (\<lambda>r. r @ sep) rs))) - int (length sep))
         = Inr (join sep rs)"
proof -
  have "concat (map (\<lambda>r. r @ sep) rs) = join sep rs @ sep"
    using assms by (rule concat_join)
  then show ?thesis by (simp add: file_truncate_def)
qed

lemma truncate_empty: "sep \<noteq> [] \<Longrightarrow> file_truncate [] (int (length ([]::string)) - int (length sep)) = Inl OSError"
  by (simp add: file_truncate_def)

lemma curl_prepare_file: "curl_prepare kw urls = (st, None) \<Longrightarrow> file_ok plat to_json now kw st"
  by (auto simp: curl_prepare_def file_ok_def idle_run_def Let_def split: if_splits)

lemma file_ok_num_processed:
  "file_ok plat to_json now kw s \<Longrightarrow> file_ok plat to_json now kw (s\<lparr>num_processed := n\<rparr>)"
  by (simp add: file_ok_def)

lemma file_ok_bind: "file_ok plat to_json now kw s \<Longrightarrow> file_ok plat to_json now kw (bind_jobs s)"
  by (simp add: file_ok_def bind_jobs_frame)

lemma main_loop_file:
  assumes "file_ok plat to_json now kw st"
    and "main_loop plat to_json now kw n st rounds = Some (st', r)"
  shows "file_ok plat to_json now kw st'"
  by (rule main_loop_preserves [where P = "file_ok plat to_json now kw", OF _ _ _ _ assms])
    (erule handle_ok_file handle_err_file file_ok_num_processed file_ok_bind, assumption?)+

lemma curl_cleanup_written:
  assumes "file_ok plat to_json now kw st"
  shows "curl_cleanup plat st =
    (if written to_json now kw (results st) = [] then (st, Some OSError)
     else (st\<lparr>output_fp := Some (join (linesep plat) (written to_json now kw (results st)))\<rparr>,
           None))"
proof (cases "written to_json now kw (results st) = []")
  case True
  with assms have "output_fp st = Some []" by (simp add: file_ok_def)
  with True show ?thesis
    using truncate_empty [OF linesep_nonempty, of plat] by (simp add: curl_cleanup_def)
next
  case False
  from assms have "output_fp st =
      Some (concat (map (\<lambda>r. r @ linesep plat) (written to_json now kw (results st))))"
    by (simp add: file_ok_def)
  with False show ?thesis
    using truncate_join [OF False, of "linesep plat"] by (simp add: curl_cleanup_def)
qed

lemma curl_cleanup_frame:
  "curl_cleanup plat st = (st', r) \<Longrightarrow> results st' = results st \<and> handles st' = handles st"
  by (auto simp: curl_cleanup_def split: option.splits sum.splits)

lemma handle_ok_handles: "handle_ok plat to_json now kw s x = (s', r) \<Longrightarrow> handles s' = handles s"
  by (auto simp: handle_ok_def Let_def split: option.splits if_splits prod.splits sum.splits)

lemma handle_err_handles: "handle_err s x = (s', r) \<Longrightarrow> handles s' = handles s"
  by (auto simp: handle_err_def split: if_splits)

lemma main_loop_handles:
  assumes "main_loop plat to_json now kw n st rounds = Some (st', r)"
  shows "handles st' = handles st"
  by (rule main_loop_preserves [where P = "\<lambda>s. handles s = handles st", OF _ _ _ _ refl assms])
    (simp_all add: handle_ok_handles handle_err_handles bind_jobs_frame)

lemma curl_main_output:
  assumes "curl_main plat to_json now kw urls rounds = Some (st, None)"
  shows "output_fp st = Some (join (linesep plat) (written to_json now kw (results st)))
         \<and> written to_json now kw (results st) \<noteq> []"
proof -
  obtain st0 e0 where prep: "curl_prepare kw urls = (st0, e0)"
    by (cases "curl_prepare kw urls")
  with assms have e0: "e0 = None"
    by (cases e0) (auto simp: curl_main_def)
  from assms prep e0 obtain st1 where
    loop: "main_loop plat to_json now kw (length urls) st0 rounds = Some (st1, None)"
    and clean: "curl_cleanup plat st1 = (st, None)"
    by (auto simp: curl_main_def split: option.splits)
  have "file_ok plat to_json now kw st0"
    using prep e0 curl_prepare_file by blast
  then have f1: "file_ok plat to_json now kw st1"
    using loop by (rule main_loop_file)
  from clean curl_cleanup_written [OF f1]
  have w: "written to_json now kw (results st1) \<noteq> []"
    and st: "st = st1\<lparr>output_fp :=
        Some (join (linesep plat) (written to_json now kw (results st1)))\<rparr>"
    by (auto split: if_splits)
  from st have "results st = results st1" by simp
  with w st show ?thesis by simp
qed

lemma handle_ok_log:
  assumes "handle_ok plat to_json now kw s ct = (s', None)"
  shows "map report_of (results s') = map report_of (results s) @ [Inl (snd ct)]
         \<and> num_processed s' = num_processed s"
  using assms
  by (auto simp: handle_ok_def Let_def split: option.splits if_splits prod.splits sum.splits)

lemma handle_err_log:
  assumes "handle_err s ce = (s', None)"
  shows "map report_of (results s') = map report_of (results s) @ [Inr ce]
         \<and> num_processed s' = num_processed s"
  using assms by (auto simp: handle_err_def split: if_splits)

lemma for_each_ok_log:
  "for_each (handle_ok plat to_json now kw) s oks = (s', None) \<Longrightarrow>
     map report_of (results s') = map report_of (results s) @ map (\<lambda>ct. Inl (snd ct)) oks
     \<and> num_processed s' = num_processed s"
proof (induction oks arbitrary: s)
  case Nil
  then show ?case by simp
next
  case (Cons x xs)
  obtain s1 r1 where f: "handle_ok plat to_json now kw s x = (s1, r1)"
    by (cases "handle_ok plat to_json now kw s x")
  with Cons.prems have r1: "r1 = None" and rest: "for_each (handle_ok plat to_json now kw) s1 xs = (s', None)"
    by (cases r1; simp)+
  from f r1 have a: "map report_of (results s1) = map report_of (results s) @ [Inl (snd x)]"
    and b: "num_processed s1 = num_processed s"
    using handle_ok_log by blast+
  from Cons.IH [OF rest] a b show ?case by simp
qed

lemma for_each_err_log:
  "for_each handle_err s errs = (s', None) \<Longrightarrow>
     map report_of (results s') = map report_of (results s) @ map Inr errs
     \<and> num_processed s' = num_processed s"
proof (induction errs arbitrary: s)
  case Nil
  then show ?case by simp
next
  case (Cons x xs)
  obtain s1 r1 where f: "handle_err s x = (s1, r1)"
    by (cases "handle_err s x")
  with Cons.prems have r1: "r1 = None" and rest: "for_each handle_err s1 xs = (s', None)"
    by (cases r1; simp)+
  from f r1 have a: "map report_of (results s1) = map report_of (results s) @ [Inr x]"
    and b: "num_processed s1 = num_processed s"
    using handle_err_log by blast+
  from Cons.IH [OF rest] a b show ?case by simp
qed

lemma info_loop_log:
  "info_loop plat to_json now kw s msgs = (s', None) \<Longrightarrow>
     map report_of (results s') = map report_of (results s) @ concat (map reports (drained msgs))
     \<and> num_processed s' = num_processed s + sum_list (map info_count (drained msgs))"
proof (induction msgs arbitrary: s)
  case Nil
  then show ?case by simp
next
  case (Cons m ms)
  obtain num_q ok_list err_list where m: "m = (num_q, ok_list, err_list)" by (cases m)
  obtain s1 r1 where f1: "for_each (handle_ok plat to_json now kw) s ok_list = (s1, r1)"
    by (cases "for_each (handle_ok plat to_json now kw) s ok_list")
  with Cons.prems m have r1: "r1 = None" by (cases r1) simp_all
  obtain s2 r2 where f2: "for_each handle_err s1 err_list = (s2, r2)"
    by (cases "for_each handle_err s1 err_list")
  with Cons.prems m f1 r1 have r2: "r2 = None" by (cases r2) simp_all
  let ?s3 = "s2\<lparr>num_processed := num_processed s2 + length ok_list + length err_list\<rparr>"
  from f1 r1 have a1: "map report_of (results s1)
      = map report_of (results s) @ map (\<lambda>ct. Inl (snd ct)) ok_list"
    and n1: "num_processed s1 = num_processed s"
    using for_each_ok_log by blast+
  from f2 r2 have a2: "map report_of (results s2) = map report_of (results s1) @ map Inr err_list"
    and n2: "num_processed s2 = num_processed s1"
    using for_each_err_log by blast+
  have log3: "map report_of (results ?s3) = map report_of (results s) @ reports m"
    using a1 a2 by (simp add: reports_def m)
  have np3: "num_processed ?s3 = num_processed s + info_count m"
    using n1 n2 by (simp add: info_count_def m)
  show ?case
  proof (cases "num_q = 0")
    case True
    with Cons.prems m f1 r1 f2 r2 have "s' = ?s3" by (simp add: Let_def)
    with log3 np3 True m show ?thesis by simp
  next
    case False
    with Cons.prems m f1 r1 f2 r2 have "info_loop plat to_json now kw ?s3 ms = (s', None)"
      by (simp add: Let_def)
    from Cons.IH [OF this] log3 np3 False m show ?thesis by simp
  qed
qed

lemma main_loop_log:
  "main_loop plat to_json now kw n s rounds = Some (s', None) \<Longrightarrow>
     map report_of (results s')
       = map report_of (results s) @ concat (map reports (processed n (num_processed s) rounds))"
proof (induction rounds arbitrary: s)
  case Nil
  then show ?case by (simp split: if_splits)
next
  case (Cons r rs)
  show ?case
  proof (cases "num_processed s < n")
    case False
    with Cons.prems show ?thesis by simp
  next
    case True
    obtain s1 r1 where il: "info_loop plat to_json now kw (bind_jobs s) r = (s1, r1)"
      by (cases "info_loop plat to_json now kw (bind_jobs s) r")
    with Cons.prems True have r1: "r1 = None" by (cases r1) simp_all
    with Cons.prems True il have rest: "main_loop plat to_json now kw n s1 rs = Some (s', None)"
      by simp
    from il r1 have a: "map report_of (results s1)
        = map report_of (results s) @ concat (map reports (drained r))"
      and b: "num_processed s1 = num_processed s + sum_list (map info_count (drained r))"
      using info_loop_log [of plat to_json now kw "bind_jobs s" r s1]
      by (simp_all add: bind_jobs_frame)
    from Cons.IH [OF rest] a b True show ?thesis by simp
  qed
qed

lemma succeeded_isl: "succeeded x = isl (report_of x)"
  by (cases x) simp_all

lemma succeeded_reports:
  "length (filter succeeded log) = length (filter isl (map report_of log))"
  by (induction log) (simp_all add: succeeded_isl)

lemma curl_prepare_log:
  "curl_prepare kw urls = (st, None) \<Longrightarrow> results st = [] \<and> num_processed st = 0"
  by (auto simp: curl_prepare_def idle_run_def Let_def split: if_splits)

text \<open>
  A run of the connection-pool driver that returns without an exception: its log has
  one entry for each completion libcurl reported in the results the loop read, in that
  order and with what was reported, and its file is the records of the successes of the
  log joined by the line separator.
\<close>

lemma curl_main_records:
  assumes "curl_main plat to_json now kw urls rounds = Some (st, None)"
  shows "map report_of (results st) = concat (map reports (processed (length urls) 0 rounds))"
    and "output_fp st = Some (join (linesep plat) (written to_json now kw (results st)))"
    and "length (written to_json now kw (results st))
           = length (filter isl (concat (map reports (processed (length urls) 0 rounds))))"
proof -
  obtain st0 e0 where prep: "curl_prepare kw urls = (st0, e0)"
    by (cases "curl_prepare kw urls")
  with assms have e0: "e0 = None"
    by (cases e0) (auto simp: curl_main_def)
  from assms prep e0 obtain st1 where
    loop: "main_loop plat to_json now kw (length urls) st0 rounds = Some (st1, None)"
    and clean: "curl_cleanup plat st1 = (st, None)"
    by (auto simp: curl_main_def split: option.splits)
  from prep e0 have z: "results st0 = []" "num_processed st0 = 0"
    using curl_prepare_log by blast+
  from clean have "results st = results st1" by (simp add: curl_cleanup_frame)
  with main_loop_log [OF loop] z
  show log: "map report_of (results st) = concat (map reports (processed (length urls) 0 rounds))"
    by simp
  show "output_fp st = Some (join (linesep plat) (written to_json now kw (results st)))"
    using assms by (simp add: curl_main_output)
  have "length (filter succeeded (results st)) = length (filter isl (map report_of (results st)))"
    by (rule succeeded_reports)
  then show "length (written to_json now kw (results st))
           = length (filter isl (concat (map reports (processed (length urls) 0 rounds))))"
    by (simp add: written_length log)
qed

section \<open>Properties of the page-pool driver\<close>

lemma filter_update_length:
  "i < length xs \<Longrightarrow>
     length (filter P (xs[i := y])) + (if P (xs ! i) then 1 else 0)
       = length (filter P xs) + (if P y then 1 else 0)"
proof (induction xs arbitrary: i)
  case Nil
  then show ?case by simp
next
  case (Cons x xs)
  show ?case
  proof (cases i)
    case 0
    then show ?thesis by simp
  next
    case (Suc j)
    with Cons.prems have "j < length xs" by simp
    from Cons.IH [OF this] Suc show ?thesis by simp
  qed
qed

lemma seed_inv: "pw_inv (seed kw urls)"
  by (simp add: pw_inv_def seed_def)

lemma worker_step_length: "length (workers (worker_step plat to_json kw scrape_url i st)) = length (workers st)"
  by (simp add: worker_step_def task_done_def split: worker.splits list.splits option.splits sum.splits)

lemma worker_step_inv:
  assumes "pw_inv st"
  shows "pw_inv (worker_step plat to_json kw scrape_url i st)"
proof (cases "length (workers st) \<le> i")
  case True
  with assms show ?thesis by (simp add: worker_step_def)
next
  case False
  then have i: "i < length (workers st)" by simp
  note b = filter_update_length [OF i, of busy]
  note e = filter_update_length [OF i, of exited]
  show ?thesis
  proof (cases "workers st ! i")
    case Exited
    with assms i show ?thesis by (simp add: worker_step_def)
  next
    case (Scraped data)
    with assms i b [of Wrote] e [of Wrote] show ?thesis
      by (simp add: worker_step_def pw_inv_def)
  next
    case Wrote
    with assms i b [of Waiting] e [of Waiting] show ?thesis
      by (auto simp: worker_step_def pw_inv_def task_done_def)
  next
    case Waiting
    show ?thesis
    proof (cases "job_queue st")
      case Nil
      with Waiting assms i show ?thesis by (simp add: worker_step_def)
    next
      case (Cons j q)
      show ?thesis
      proof (cases j)
        case None
        with Cons Waiting assms i b [of Exited] e [of Exited] show ?thesis
          by (auto simp: worker_step_def pw_inv_def)
      next
        case (Some url)
        show ?thesis
        proof (cases "scrape_task to_json kw scrape_url url")
          case (Inl err)
          with Some Cons Waiting assms i show ?thesis
            by (auto simp: worker_step_def pw_inv_def task_done_def)
        next
          case (Inr data)
          with Some Cons Waiting assms i b [of "Scraped data"] e [of "Scraped data"]
          show ?thesis
            by (auto simp: worker_step_def pw_inv_def)
        qed
      qed
    qed
  qed
qed

lemma pw_inv_positive:
  assumes "pw_inv st" and "workers st \<noteq> []"
  shows "0 < unfinished_tasks st"
proof -
  let ?n = "length (filter (\<lambda>j. j = None) (job_queue st))"
  let ?e = "length (filter exited (workers st))"
  have le: "?n \<le> length (job_queue st)"
    by (rule length_filter_le)
  have pos: "0 < length (workers st)" using assms(2) by simp
  from assms(1) have u: "unfinished_tasks st =
      length (job_queue st) + length (filter busy (workers st)) + ?e"
    and w: "?n + ?e = length (workers st)"
    by (simp_all add: pw_inv_def)
  from le pos u w show ?thesis by arith
qed

lemma joined_never_with_workers:
  "pw_inv st \<Longrightarrow> workers st \<noteq> [] \<Longrightarrow>
     run_until_joined plat to_json kw scrape_url st sched = None"
proof (induction sched arbitrary: st)
  case Nil
  then show ?case using pw_inv_positive [of st] by simp
next
  case (Cons i sched)
  let ?st = "worker_step plat to_json kw scrape_url i st"
  have "pw_inv ?st" using Cons.prems(1) by (rule worker_step_inv)
  moreover have "workers ?st \<noteq> []"
    using Cons.prems(2) worker_step_length [of plat to_json kw scrape_url i st]
    by (metis length_0_conv)
  ultimately have "run_until_joined plat to_json kw scrape_url ?st sched = None"
    by (rule Cons.IH)
  with pw_inv_positive [OF Cons.prems] show ?case by simp
qed

lemma worker_step_no_workers: "workers st = [] \<Longrightarrow> worker_step plat to_json kw scrape_url i st = st"
  by (simp add: worker_step_def)

lemma joined_never_without_workers:
  "workers st = [] \<Longrightarrow> unfinished_tasks st \<noteq> 0 \<Longrightarrow>
     run_until_joined plat to_json kw scrape_url st sched = None"
  by (induction sched) (simp_all add: worker_step_no_workers)

lemma joined_at_once:
  "unfinished_tasks st = 0 \<Longrightarrow> run_until_joined plat to_json kw scrape_url st sched = Some (st, sched)"
  by (cases sched) simp_all

lemma exited_at_once:
  "all_exited st \<Longrightarrow> run_until_exited plat to_json kw scrape_url st sched = Some st"
  by (cases sched) simp_all

lemma playwright_main_none:
  assumes "0 < num_pages kw \<or> urls \<noteq> []"
  shows "playwright_main plat to_json kw scrape_url urls sched = None"
proof (cases "0 < num_pages kw")
  case True
  then have "workers (seed kw urls) \<noteq> []" by (simp add: seed_def)
  with seed_inv have "run_until_joined plat to_json kw scrape_url (seed kw urls) sched = None"
    by (rule joined_never_with_workers)
  then show ?thesis by (simp add: playwright_main_def)
next
  case False
  with assms have "urls \<noteq> []" by simp
  with False have "workers (seed kw urls) = []" "unfinished_tasks (seed kw urls) \<noteq> 0"
    by (simp_all add: seed_def)
  then have "run_until_joined plat to_json kw scrape_url (seed kw urls) sched = None"
    by (rule joined_never_without_workers)
  then show ?thesis by (simp add: playwright_main_def)
qed

lemma playwright_main_some:
  assumes "playwright_main plat to_json kw scrape_url urls sched = Some st"
  shows "num_pages kw \<le> 0 \<and> urls = [] \<and> st = seed kw []
         \<and> pw_output st = [] \<and> pw_records st = []"
proof -
  have c: "\<not> (0 < num_pages kw \<or> urls \<noteq> [])"
    using assms playwright_main_none [of kw urls plat to_json scrape_url sched] by auto
  then have m: "num_pages kw \<le> 0" and u: "urls = []" by auto
  from m have s: "seed kw [] =
      \<lparr>job_queue = [], unfinished_tasks = 0, workers = [], pw_output = [], pw_records = [],
       pw_pbar = 0\<rparr>"
    by (simp add: seed_def)
  then have j: "run_until_joined plat to_json kw scrape_url (seed kw []) sched
      = Some (seed kw [], sched)"
    by (simp add: joined_at_once)
  from s have "all_exited (seed kw [])" by (simp add: all_exited_def)
  then have e: "run_until_exited plat to_json kw scrape_url (seed kw []) sched = Some (seed kw [])"
    by (rule exited_at_once)
  have f: "pw_finish plat (seed kw []) = seed kw []"
    using linesep_nonempty [of plat] by (simp add: pw_finish_def s file_truncate_def)
  from assms u j e f have "st = seed kw []" by (simp add: playwright_main_def)
  with m u s show ?thesis by simp
qed

lemmas strip_eval = strip_data_def strip_data_twice_def strip_var_def example_page_def keeps_def
  image_request_def script_request_def

subsection \<open>Claims about stripping\<close>

text \<open>
  Claim C8. Stripping is idempotent: calling \<open>strip_data\<close> with the same field names and the
  same resource types on its own result gives the result of the first call (the same
  heap and the same returned object or exception).
\<close>

theorem strip_data_idempotent:
  "strip_data_twice h data names keep = strip_data h data names keep"
proof (cases "strip_loop (h data) names keep")
  case (Pair d' r)
  show ?thesis
  proof (cases r)
    case None
    from Pair None have "strip_loop (h data) names keep = (d', None)" by simp
    then have "strip_loop d' names keep = (d', None)" by (rule strip_loop_idem)
    with Pair None show ?thesis
      by (simp add: strip_data_twice_def strip_data_def)
  next
    case (Some e)
    with Pair show ?thesis
      by (simp add: strip_data_twice_def strip_data_def)
  qed
qed

theorem strip_data_idempotent_witness:
  "strip_data_twice (\<lambda>_. example_page) 0 [''body'', ''requests''] [''image'']
     = strip_data (\<lambda>_. example_page) 0 [''body'', ''requests''] [''image'']
   \<and> snd (strip_data (\<lambda>_. example_page) 0 [''body'', ''requests''] [''image'']) = Inr 0
   \<and> fst (strip_data (\<lambda>_. example_page) 0 [''body'', ''requests''] [''image'']) 0 =
     [(''request_url'', PStr ''http://a''), (''url'', PStr ''http://a/''), (''date'', PDate 0),
      (''body'', PNone), (''requests'', PList [image_request]),
      (''screenshot'', PBytes ''png''), (''full_screenshot'', PNone)]"
  using strip_data_idempotent [of "\<lambda>_. example_page" 0 "[''body'', ''requests'']" "[''image'']"]
  by (simp add: strip_eval)

text \<open>
  Claim C5, as stated, fails: with \<open>requests\<close> among the names and no resource type to
  keep, the two requests of the example page are not kept; the field becomes the empty
  list.
\<close>

theorem strip_data_keep_all_counterexample:
  "map_of (fst (strip_data (\<lambda>_. example_page) 0 [''requests''] []) 0) ''requests''
     = Some (PList [])
   \<and> map_of (fst (strip_data (\<lambda>_. example_page) 0 [''requests''] []) 0) ''requests''
     \<noteq> map_of example_page ''requests''"
  by (simp add: strip_eval)

text \<open>
  Claim C5, amended. For a page whose \<open>requests\<close> field is a list or a tuple and names
  that contain \<open>requests\<close>, \<open>strip_data\<close> raises nothing and returns the page with
  \<open>requests\<close> holding exactly the records whose resource type is among the types to
  keep, in their order, when there is a type to keep, and the empty list when there is
  none.
\<close>

theorem strip_data_requests:
  assumes "''requests'' \<in> set names"
    and "map_of (h data) ''requests'' = Some v"
    and "v = PList rs \<or> v = PTuple rs"
  shows "\<exists>h'. strip_data h data names keep = (h', Inr data) \<and>
           map_of (h' data) ''requests'' =
             Some (PList (if keep = [] then [] else filter (keeps keep) rs))"
proof -
  from strip_loop_ok [OF assms(2,3)] obtain d' where
    run: "strip_loop (h data) names keep = (d', None)" by blast
  from strip_loop_named [OF run assms(1,2)] obtain v1 where
    "strip_value ''requests'' keep v = Inr v1" and "map_of d' ''requests'' = Some v1" by blast
  with assms(3) have
    "map_of d' ''requests'' = Some (PList (if keep = [] then [] else filter (keeps keep) rs))"
    by (simp add: strip_value_seq)
  with run show ?thesis by (simp add: strip_data_def)
qed

theorem strip_data_requests_witness:
  "''requests'' \<in> set [''body'', ''requests'']
   \<and> map_of example_page ''requests'' = Some (PList [image_request, script_request])
   \<and> (\<exists>h'. strip_data (\<lambda>_. example_page) 0 [''body'', ''requests''] [''image''] = (h', Inr 0)
          \<and> map_of (h' 0) ''requests'' = Some (PList [image_request]))"
proof -
  have a: "''requests'' \<in> set [''body'', ''requests'']" by simp
  have b: "map_of ((\<lambda>_. example_page) (0::nat)) ''requests''
             = Some (PList [image_request, script_request])"
    by (simp add: example_page_def)
  have c: "PList [image_request, script_request] = PList [image_request, script_request]
             \<or> PList [image_request, script_request] = PTuple [image_request, script_request]"
    by simp
  have k: "filter (keeps [''image'']) [image_request, script_request] = [image_request]"
    by (simp add: keeps_def image_request_def script_request_def)
  from strip_data_requests [where keep = "[''image'']", OF a b c] k b a show ?thesis by simp
qed

text \<open>
  Claim C7, as stated, fails: \<open>strip_data\<close> assigns into the dictionary it is given, so
  after the call the input page is no longer what it was. The object returned is the
  input object.
\<close>

theorem strip_data_pure_counterexample:
  "snd (strip_data (\<lambda>_. example_page) 0 [''body''] []) = Inr 0
   \<and> fst (strip_data (\<lambda>_. example_page) 0 [''body''] []) 0 \<noteq> example_page
   \<and> map_of (fst (strip_data (\<lambda>_. example_page) 0 [''body''] []) 0) ''body'' = Some PNone"
  by (simp add: strip_eval)

text \<open>
  Claim C7, amended. \<open>strip_data\<close> updates the page it is given in place and returns
  that same page. When it returns, every other object of the heap is as before; the
  page has the same keys in the same order; a field that is not named keeps its value;
  and a named field of the page, other than \<open>requests\<close> with a resource type to keep
  (which is filtered), holds the blank of its type: \<open>[]\<close> for a list or tuple, \<open>{}\<close> for
  a dictionary, \<open>None\<close> for anything else.
\<close>

theorem strip_data_in_place:
  assumes "strip_data h data names keep = (h', Inr r)"
  shows "r = data
    \<and> (\<forall>b. b \<noteq> data \<longrightarrow> h' b = h b)
    \<and> map fst (h' data) = map fst (h data)
    \<and> (\<forall>k. k \<notin> set names \<longrightarrow> map_of (h' data) k = map_of (h data) k)
    \<and> (\<forall>k v. k \<in> set names \<longrightarrow> \<not> (k = ''requests'' \<and> keep \<noteq> []) \<longrightarrow>
          map_of (h data) k = Some v \<longrightarrow> map_of (h' data) k = Some (blank v))"
proof -
  obtain d' e where run: "strip_loop (h data) names keep = (d', e)"
    by (cases "strip_loop (h data) names keep")
  with assms have e: "e = None" and h': "h' = h(data := d')" and r: "r = data"
    by (auto simp: strip_data_def split: option.splits)
  have keys: "map fst d' = map fst (h data)"
    using run by (rule strip_loop_keys)
  have other: "map_of d' k = map_of (h data) k" if "k \<notin> set names" for k
    using run that by (rule strip_loop_other)
  have named: "map_of d' k = Some (blank v)"
    if "k \<in> set names" "\<not> (k = ''requests'' \<and> keep \<noteq> [])" "map_of (h data) k = Some v"
    for k v
  proof -
    from run e have "strip_loop (h data) names keep = (d', None)" by simp
    from strip_loop_named [OF this that(1,3)] obtain v1 where
      "strip_value k keep v = Inr v1" "map_of d' k = Some v1" by blast
    with that(2) show ?thesis by (auto simp: strip_value_def)
  qed
  show ?thesis
    using r keys other named by (simp add: h')
qed

theorem strip_data_in_place_witness:
  "strip_data (\<lambda>_. example_page) 0 [''body'', ''requests'', ''nothing''] []
     = ((\<lambda>_. example_page)(0 :=
         [(''request_url'', PStr ''http://a''), (''url'', PStr ''http://a/''), (''date'', PDate 0),
          (''body'', PNone), (''requests'', PList []),
          (''screenshot'', PBytes ''png''), (''full_screenshot'', PNone)]), Inr 0)
   \<and> map fst (fst (strip_data (\<lambda>_. example_page) 0 [''body'', ''requests'', ''nothing''] []) 0)
       = map fst example_page
   \<and> map_of (fst (strip_data (\<lambda>_. example_page) 0 [''body'', ''requests'', ''nothing''] []) 0)
         ''body'' = Some (blank (PBytes ''<html>''))
   \<and> map_of (fst (strip_data (\<lambda>_. example_page) 0 [''body'', ''requests'', ''nothing''] []) 0)
         ''url'' = map_of example_page ''url''"
proof -
  have run: "strip_data (\<lambda>_. example_page) 0 [''body'', ''requests'', ''nothing''] []
     = ((\<lambda>_. example_page)(0 :=
         [(''request_url'', PStr ''http://a''), (''url'', PStr ''http://a/''), (''date'', PDate 0),
          (''body'', PNone), (''requests'', PList []),
          (''screenshot'', PBytes ''png''), (''full_screenshot'', PNone)]), Inr 0)"
    by (simp add: strip_eval)
  have b: "map_of example_page ''body'' = Some (PBytes ''<html>'')"
    by (simp add: example_page_def)
  note t = strip_data_in_place [OF run]
  let ?p = "((\<lambda>_. example_page)(0 :=
         [(''request_url'', PStr ''http://a''), (''url'', PStr ''http://a/''), (''date'', PDate 0),
          (''body'', PNone), (''requests'', PList []),
          (''screenshot'', PBytes ''png''), (''full_screenshot'', PNone)])) (0::nat)"
  have keys: "map fst ?p = map fst example_page"
    using t [THEN conjunct2, THEN conjunct2, THEN conjunct1] by (simp only:)
  have url: "map_of ?p ''url'' = map_of example_page ''url''"
    using t [THEN conjunct2, THEN conjunct2, THEN conjunct2, THEN conjunct1, rule_format, of "''url''"]
    by simp
  have body: "map_of ?p ''body'' = Some (blank (PBytes ''<html>''))"
    using t [THEN conjunct2, THEN conjunct2, THEN conjunct2, THEN conjunct2, rule_format,
        of "''body''" "PBytes ''<html>''"] b
    by simp
  from keys url body show ?thesis
    by (simp only: run fst_conv)
qed

section \<open>Properties of the page-pool engine\<close>

subsection \<open>Request capture\<close>

lemma request_handler_200:
  assumes "pw_response request = Some r" and "status r = 200" and "body_result r = Inr b"
  shows "\<exists>rec resp. request_handler urlparse now request = Inr rec
           \<and> response rec = Some resp \<and> resp_body resp = b \<and> status_code resp = 200"
  using assms by (simp add: request_handler_def Let_def)

lemma request_handler_other_status:
  assumes "pw_response request = Some r" and "status r \<noteq> 200"
  shows "\<exists>rec. request_handler urlparse now request = Inr rec \<and> response rec = None"
  using assms by (simp add: request_handler_def Let_def)

lemma request_handler_no_response:
  assumes "pw_response request = None"
  shows "request_handler urlparse now request = Inl AttributeError"
    and "on_requestfinished urlparse now requests request = requests"
  using assms by (simp_all add: request_handler_def on_requestfinished_def)

text \<open>
  Claim C6 at a finished request that has no response: \<open>request_handler\<close> raises, and the
  observer records nothing for the exchange.
\<close>

theorem request_without_response_dropped:
  "request_handler example_urlparse 0 (example_request\<lparr>pw_response := None\<rparr>) = Inl AttributeError
   \<and> on_requestfinished example_urlparse 0 [] (example_request\<lparr>pw_response := None\<rparr>) = []"
  by (simp add: request_handler_def on_requestfinished_def)

subsection \<open>Closing the page\<close>

lemma scrape_success_closes:
  assumes "scrape urlparse now self env b url = (b', Inr result)"
  shows "b' = close_page (next_page b) (new_page b)" and "next_page b \<notin> set (open_pages b')"
  using assms by (auto simp: scrape_def Let_def close_page_def split: if_splits)

lemma scrape_goto_failure_closes:
  assumes "\<not> raises env NewPage" "\<not> raises env Route"
    and "implicit_wait self = 0 \<or> \<not> raises env WaitForTimeout"
    and "raises env Goto" and "\<not> raises env ClosePage"
  shows "scrape urlparse now self env b url = (close_page (next_page b) (new_page b), Inl ScrapeError)"
  using assms by (auto simp: scrape_def Let_def)

text \<open>
  Claim C4 at a job whose screenshot raises after a successful navigation: \<open>scrape\<close>
  propagates the exception and the page it opened is still open.
\<close>

theorem scrape_screenshot_failure_leaks_page:
  "scrape example_urlparse 0 example_scraper (example_job\<lparr>raises := (\<lambda>c. c = Screenshot)\<rparr>)
      empty_browser ''http://a/''
     = (\<lparr>open_pages = [0], next_page = 1\<rparr>, Inl ScrapeError)"
  by (simp add: scrape_def example_job_def example_scraper_def empty_browser_def new_page_def
      Let_def)

lemmas curl_eval = curl_main_def curl_prepare_def curl_cleanup_def file_truncate_def handle_ok_def
  handle_err_def get_result_def strip_data_def curl_instance_def CurlScraper_init_def
  idle_run_def example_kwargs_def example_json_def example_transfer_def example_urls_def
  example_rounds_def failing_rounds_def example_prepared_def failing_final_def record_of_def
  bind_jobs.simps Let_def upt_rec

subsection \<open>Claims about the connection-pool driver\<close>

text \<open>
  Claim C9. A \<open>num_conn\<close> outside 1..10000 ends the run with the assertion error in the
  idle state: no handle is allocated, no transfer is started and the output file is
  not opened. For an accepted \<open>num_conn\<close> the preparation allocates
  \<open>min(num_conn, number of urls)\<close> handles, all of them free and none started, and the
  run keeps exactly these handles to its end.
\<close>

theorem curl_main_width:
  "(\<not> (1 \<le> num_conn kw \<and> num_conn kw \<le> 10000) \<longrightarrow>
      curl_main plat to_json now kw urls rounds = Some (idle_run, Some AssertionError)
      \<and> handles idle_run = [] \<and> started idle_run = 0 \<and> output_fp idle_run = None)
   \<and> (1 \<le> num_conn kw \<and> num_conn kw \<le> 10000 \<longrightarrow>
      (\<exists>st. curl_prepare kw urls = (st, None)
         \<and> int (length (handles st)) = min (num_conn kw) (int (length urls))
         \<and> freelist st = map hid (handles st) \<and> started st = 0
         \<and> (\<forall>st' r. curl_main plat to_json now kw urls rounds = Some (st', r)
               \<longrightarrow> handles st' = handles st)))"
proof (intro conjI impI)
  assume bad: "\<not> (1 \<le> num_conn kw \<and> num_conn kw \<le> 10000)"
  then show "curl_main plat to_json now kw urls rounds = Some (idle_run, Some AssertionError)"
    by (simp add: curl_main_def curl_prepare_def)
  show "handles idle_run = []" "started idle_run = 0" "output_fp idle_run = None"
    by (simp_all add: idle_run_def)
next
  assume good: "1 \<le> num_conn kw \<and> num_conn kw \<le> 10000"
  define st where "st = fst (curl_prepare kw urls)"
  from good have prep: "curl_prepare kw urls = (st, None)"
    by (simp add: st_def curl_prepare_def Let_def)
  from good have width: "int (length (handles st)) = min (num_conn kw) (int (length urls))"
    by (simp add: st_def curl_prepare_def Let_def idle_run_def)
  from good have free: "freelist st = map hid (handles st)" "started st = 0"
    by (simp_all add: st_def curl_prepare_def Let_def idle_run_def)
  have keep: "handles st' = handles st"
    if run: "curl_main plat to_json now kw urls rounds = Some (st', r)" for st' r
  proof (cases "main_loop plat to_json now kw (length urls) st rounds")
    case None
    with run prep show ?thesis by (simp add: curl_main_def)
  next
    case (Some p)
    obtain s1 r1 where p: "p = (s1, r1)" by (cases p)
    with Some have h1: "handles s1 = handles st" by (simp add: main_loop_handles)
    show ?thesis
    proof (cases r1)
      case None
      with run prep Some p have "curl_cleanup plat s1 = (st', r)" by (simp add: curl_main_def)
      with h1 show ?thesis by (simp add: curl_cleanup_frame)
    next
      case (Some e)
      with run prep \<open>main_loop plat to_json now kw (length urls) st rounds = Some p\<close> p
      have "st' = s1" by (simp add: curl_main_def)
      with h1 show ?thesis by simp
    qed
  qed
  from prep width free keep
  show "\<exists>st. curl_prepare kw urls = (st, None)
         \<and> int (length (handles st)) = min (num_conn kw) (int (length urls))
         \<and> freelist st = map hid (handles st) \<and> started st = 0
         \<and> (\<forall>st' r. curl_main plat to_json now kw urls rounds = Some (st', r)
               \<longrightarrow> handles st' = handles st)"
    by blast
qed

theorem curl_main_width_witness:
  "curl_main Posix example_json 0 (example_kwargs\<lparr>num_conn := 0\<rparr>) example_urls example_rounds
     = Some (idle_run, Some AssertionError)
   \<and> curl_main Posix example_json 0 (example_kwargs\<lparr>num_conn := 10001\<rparr>) example_urls
       example_rounds = Some (idle_run, Some AssertionError)
   \<and> curl_prepare example_kwargs example_urls = (example_prepared, None)
   \<and> length (handles example_prepared) = 2
   \<and> length (handles (fst (curl_prepare (example_kwargs\<lparr>num_conn := 10000\<rparr>) example_urls))) = 3"
proof -
  have a: "\<not> (1 \<le> num_conn (example_kwargs\<lparr>num_conn := 0\<rparr>)
             \<and> num_conn (example_kwargs\<lparr>num_conn := 0\<rparr>) \<le> 10000)"
    by simp
  have b: "\<not> (1 \<le> num_conn (example_kwargs\<lparr>num_conn := 10001\<rparr>)
             \<and> num_conn (example_kwargs\<lparr>num_conn := 10001\<rparr>) \<le> 10000)"
    by simp
  have c: "1 \<le> num_conn (example_kwargs\<lparr>num_conn := 10000\<rparr>)
             \<and> num_conn (example_kwargs\<lparr>num_conn := 10000\<rparr>) \<le> 10000"
    by simp
  note t = curl_main_width [where plat = Posix and to_json = example_json and now = 0
      and urls = example_urls and rounds = example_rounds]
  from t [of "example_kwargs\<lparr>num_conn := 0\<rparr>", THEN conjunct1, rule_format, OF a]
  have r0: "curl_main Posix example_json 0 (example_kwargs\<lparr>num_conn := 0\<rparr>) example_urls
      example_rounds = Some (idle_run, Some AssertionError)"
    by simp
  from t [of "example_kwargs\<lparr>num_conn := 10001\<rparr>", THEN conjunct1, rule_format, OF b]
  have r1: "curl_main Posix example_json 0 (example_kwargs\<lparr>num_conn := 10001\<rparr>) example_urls
      example_rounds = Some (idle_run, Some AssertionError)"
    by simp
  from t [of "example_kwargs\<lparr>num_conn := 10000\<rparr>", THEN conjunct2, rule_format, OF c]
  have r2: "length (handles (fst (curl_prepare (example_kwargs\<lparr>num_conn := 10000\<rparr>)
      example_urls))) = 3"
    by (auto simp: example_urls_def)
  have r3: "curl_prepare example_kwargs example_urls = (example_prepared, None)"
    by (simp add: curl_eval)
  have r4: "length (handles example_prepared) = 2"
    by (simp add: example_prepared_def)
  from r0 r1 r2 r3 r4 show ?thesis by simp
qed

text \<open>
  Claim C10. When the main loop of the connection-pool driver ends without a successful
  job in its log (for example, every job failed), the output file is empty, so the
  cleanup calls \<open>truncate\<close> with the negative size \<open>0 - len(os.linesep)\<close> and the run ends
  with the exception raised there instead of returning with an empty file.
\<close>

theorem curl_main_no_record_raises:
  assumes "curl_prepare kw urls = (st0, None)"
    and "main_loop plat to_json now kw (length urls) st0 rounds = Some (st, None)"
    and "filter succeeded (results st) = []"
  shows "output_fp st = Some []
    \<and> int (length ([]::string)) - int (length (linesep plat)) < 0
    \<and> curl_cleanup plat st = (st, Some OSError)
    \<and> curl_main plat to_json now kw urls rounds = Some (st, Some OSError)"
proof -
  have "file_ok plat to_json now kw st0"
    using assms(1) by (rule curl_prepare_file)
  then have f: "file_ok plat to_json now kw st"
    using assms(2) by (rule main_loop_file)
  have "length (written to_json now kw (results st)) = 0"
    using assms(3) by (simp add: written_length)
  then have w: "written to_json now kw (results st) = []" by simp
  with f have out: "output_fp st = Some []" by (simp add: file_ok_def)
  have neg: "int (length ([]::string)) - int (length (linesep plat)) < 0"
    using linesep_nonempty [of plat] by simp
  have clean: "curl_cleanup plat st = (st, Some OSError)"
    using curl_cleanup_written [OF f] w by simp
  with assms(1,2) have "curl_main plat to_json now kw urls rounds = Some (st, Some OSError)"
    by (simp add: curl_main_def)
  with out neg clean show ?thesis by simp
qed

theorem curl_main_no_record_raises_witness:
  "curl_prepare example_kwargs example_urls = (example_prepared, None)
   \<and> main_loop Posix example_json 0 example_kwargs (length example_urls) example_prepared
        failing_rounds = Some (failing_final, None)
   \<and> filter succeeded (results failing_final) = []
   \<and> output_fp failing_final = Some []
   \<and> curl_main Posix example_json 0 example_kwargs example_urls failing_rounds
        = Some (failing_final, Some OSError)"
proof -
  have a: "curl_prepare example_kwargs example_urls = (example_prepared, None)"
    by (simp add: curl_eval)
  have b: "main_loop Posix example_json 0 example_kwargs (length example_urls) example_prepared
        failing_rounds = Some (failing_final, None)"
    by (simp add: curl_eval)
  have c: "filter succeeded (results failing_final) = []"
    by (simp add: failing_final_def)
  from curl_main_no_record_raises [OF a b c] a b c show ?thesis by simp
qed

text \<open>
  Claim C1 at the example run: the driver constructs the scraper and never calls
  \<open>setup\<close>, so every handle it allocates has no option set, while \<open>setup\<close> on the same
  scraper accumulates the sharing, cookie, TLS, redirect and timeout options.
\<close>

theorem curl_handles_not_configured:
  "map handle_options (handles (fst (curl_prepare example_kwargs example_urls))) = [[], []]
   \<and> CurlScraper_setup example_urlparse ''/etc/cacert.pem'' (CurlScraper_init example_kwargs) =
       ((CurlScraper_init example_kwargs)\<lparr>curl_options :=
          [(SHARE, OShare), (COOKIEFILE, OStr []), (SSL_VERIFYPEER, OInt 1),
           (SSL_VERIFYHOST, OInt 2), (CAINFO, OStr ''/etc/cacert.pem''),
           (FOLLOWLOCATION, OBool True), (MAXREDIRS, OInt 3),
           (CONNECTTIMEOUT, OInt 30), (NOSIGNAL, OInt 1), (TIMEOUT, OInt 3000)]\<rparr>, None)"
  by (simp add: curl_eval CurlScraper_setup_def add_curl_option_def truthy_def)

lemma curl_prepare_handles_bare:
  "curl_prepare kw urls = (st, r) \<Longrightarrow> c \<in> set (handles st) \<Longrightarrow> handle_options c = []"
  by (auto simp: curl_prepare_def Let_def idle_run_def curl_instance_def CurlScraper_init_def
      split: if_splits)

lemma curl_setup_proxy_raises:
  "truthy (proxy self) \<Longrightarrow> snd (CurlScraper_setup urlparse cainfo self) = Some AttributeError"
  by (simp add: CurlScraper_setup_def Let_def add_curl_option_def)

lemma schedule_inv:
  "pw_inv st \<Longrightarrow> pw_inv (foldl (\<lambda>s i. worker_step plat to_json kw scrape_url i s) st sched)"
  by (induction sched arbitrary: st) (simp_all add: worker_step_inv)

lemma schedule_length:
  "length (workers (foldl (\<lambda>s i. worker_step plat to_json kw scrape_url i s) st sched))
     = length (workers st)"
  by (induction sched arbitrary: st) (simp_all add: worker_step_length)

lemma schedule_no_workers:
  "workers st = [] \<Longrightarrow> foldl (\<lambda>s i. worker_step plat to_json kw scrape_url i s) st sched = st"
  by (induction sched) (simp_all add: worker_step_no_workers)

lemmas pw_eval = playwright_main_def seed_def worker_step_def task_done_def scrape_task_def
  strip_data_def pw_finish_def file_truncate_def all_exited_def example_pw_kwargs_def
  example_scrape_url_def example_json_def example_page_def two_page_kwargs_def
  example_scrape_page_def

subsection \<open>Claims about the page-pool driver and the output file\<close>

text \<open>
  Claim C3 fails on every run with a page or a url. The driver does enqueue the urls
  followed by one stop marker per page, and a worker returns on its marker; but it
  returns without \<open>task_done\<close>, so whatever the workers do the count of unfinished tasks
  stays positive, \<open>join\<close> never returns, and the run does not terminate.
\<close>

theorem playwright_main_never_returns:
  assumes "0 < num_pages kw \<or> urls \<noteq> []"
  shows "job_queue (seed kw urls) = map Some urls @ replicate (nat (num_pages kw)) None
    \<and> 0 < unfinished_tasks
          (foldl (\<lambda>s i. worker_step plat to_json kw scrape_url i s) (seed kw urls) sched)
    \<and> playwright_main plat to_json kw scrape_url urls sched = None"
proof -
  let ?st = "foldl (\<lambda>s i. worker_step plat to_json kw scrape_url i s) (seed kw urls) sched"
  have q: "job_queue (seed kw urls) = map Some urls @ replicate (nat (num_pages kw)) None"
    by (simp add: seed_def)
  have pos: "0 < unfinished_tasks ?st"
  proof (cases "0 < num_pages kw")
    case True
    then have "workers (seed kw urls) \<noteq> []" by (simp add: seed_def)
    then have "workers ?st \<noteq> []"
      using schedule_length [of plat to_json kw scrape_url "seed kw urls" sched]
      by (metis length_0_conv)
    moreover have "pw_inv ?st" using seed_inv by (rule schedule_inv)
    ultimately show ?thesis by (simp add: pw_inv_positive)
  next
    case False
    with assms have u: "urls \<noteq> []" by simp
    from False have "workers (seed kw urls) = []" by (simp add: seed_def)
    then have "?st = seed kw urls" by (rule schedule_no_workers)
    with u show ?thesis by (simp add: seed_def)
  qed
  have "playwright_main plat to_json kw scrape_url urls sched = None"
    using assms by (rule playwright_main_none)
  with q pos show ?thesis by simp
qed

theorem playwright_main_never_returns_witness:
  "(0 < num_pages example_pw_kwargs \<or> [''http://a''] \<noteq> [])
   \<and> foldl (\<lambda>s i. worker_step Posix example_json example_pw_kwargs example_scrape_url i s)
        (seed example_pw_kwargs [''http://a'']) [0, 0, 0, 0]
      = \<lparr>job_queue = [], unfinished_tasks = 1, workers = [Exited],
         pw_output = ''http://a'' @ [CHR 0x0A], pw_records = [''http://a''], pw_pbar = 1\<rparr>
   \<and> playwright_main Posix example_json example_pw_kwargs example_scrape_url [''http://a'']
        [0, 0, 0, 0] = None"
proof -
  have a: "0 < num_pages example_pw_kwargs \<or> [''http://a''] \<noteq> []" by simp
  have b: "foldl (\<lambda>s i. worker_step Posix example_json example_pw_kwargs example_scrape_url i s)
        (seed example_pw_kwargs [''http://a'']) [0, 0, 0, 0]
      = \<lparr>job_queue = [], unfinished_tasks = 1, workers = [Exited],
         pw_output = ''http://a'' @ [CHR 0x0A], pw_records = [''http://a''], pw_pbar = 1\<rparr>"
    by (simp add: pw_eval)
  from playwright_main_never_returns [OF a, of Posix example_json example_scrape_url "[0, 0, 0, 0]"]
    a b show ?thesis by simp
qed


end
